theory Spec2Isabelle
  imports Complex_Main "HOL-Library.Multiset"
begin

section \<open>Data model (test.py, initialDataProcessing.py)\<close>

text \<open>
  Both source files define the same classes and the same nearest-neighbour graph builder;
  \<open>test.py\<close> names the builder \<open>addEdgesToMunicipalitiesV2\<close> and keeps the older,
  edge-list driven \<open>addEdgesToMunicipalities\<close> beside it.

  A Python float is modelled by the real number it denotes (infinities, NaN and the sign
  of zero are not represented), so comparisons of floats are comparisons of reals. The
  floating-point operations themselves round, and the functions of \<open>math\<close> come from
  the C library; they are a parameter of the model (\<open>float_arith\<close>, below). Python
  exceptions are values of \<open>py_error\<close>; a function that can raise returns
  \<open>py_error + 'a\<close>.
\<close>

datatype py_error = TypeError | KeyError | ValueError | IndexError | AttributeError

definition MAX_EDGES :: nat where
  "MAX_EDGES = 10"

definition MAX_DISTANCE :: real where
  "MAX_DISTANCE = 100"

record MunicipalityEdge =
  fromMuniCode :: string
  toMuniCode :: string
  distance :: real

text \<open>
  The attribute \<open>_neighbors\<close> can be deleted from a live object
  (\<open>municipalityDictSerializer\<close>), so the field is optional: \<open>None\<close> is an object whose
  \<open>__dict__\<close> no longer has the key.
\<close>

record Municipality =
  name :: string
  state :: string
  code :: string
  lat :: real
  lon :: real
  hasSupercharger :: bool
  neighbors :: "string set option"
  edges :: "MunicipalityEdge list"

text \<open>
  \<open>Municipality.__init__\<close> without the \<open>edges\<close> argument (or with an empty list):
  both \<open>_neighbors\<close> and \<open>edges\<close> start empty.
\<close>

definition Municipality_init :: "string \<Rightarrow> string \<Rightarrow> string \<Rightarrow> real \<Rightarrow> real \<Rightarrow> bool \<Rightarrow> Municipality" where
  "Municipality_init n s c la lo h =
     \<lparr>name = n, state = s, code = c, lat = la, lon = lo, hasSupercharger = h,
      neighbors = Some {}, edges = []\<rparr>"


section \<open>Floating-point arithmetic\<close>

text \<open>
  The operations on floats that the distance function uses: the arithmetic operators,
  the conversion of a decimal literal, and the functions of \<open>math\<close>. Their results are
  fixed by the platform (IEEE 754 arithmetic and the C library), not by the repository;
  the model takes them as a parameter and every general statement below holds for all of
  them.
\<close>

record float_arith =
  fl_add :: "real \<Rightarrow> real \<Rightarrow> real"
  fl_sub :: "real \<Rightarrow> real \<Rightarrow> real"
  fl_mul :: "real \<Rightarrow> real \<Rightarrow> real"
  fl_div :: "real \<Rightarrow> real \<Rightarrow> real"
  fl_pow :: "real \<Rightarrow> nat \<Rightarrow> real"
  fl_literal :: "real \<Rightarrow> real"
  fl_radians :: "real \<Rightarrow> real"
  fl_sin :: "real \<Rightarrow> real"
  fl_cos :: "real \<Rightarrow> real"
  fl_sqrt :: "real \<Rightarrow> real"
  fl_atan2 :: "real \<Rightarrow> real \<Rightarrow> real"

text \<open>
  The quotient \<open>a / b\<close> of two Python integers is the double nearest to the exact
  quotient, ties to even (\<open>round_double\<close>, for values in the normal range of doubles:
  53 significant bits).
\<close>

definition round_half_even :: "real \<Rightarrow> int" where
  "round_half_even x =
     (if x - of_int \<lfloor>x\<rfloor> < 1 / 2 then \<lfloor>x\<rfloor>
      else if 1 / 2 < x - of_int \<lfloor>x\<rfloor> then \<lfloor>x\<rfloor> + 1
      else if even \<lfloor>x\<rfloor> then \<lfloor>x\<rfloor> else \<lfloor>x\<rfloor> + 1)"

definition pow2 :: "int \<Rightarrow> real" where
  "pow2 e = (if 0 \<le> e then 2 ^ nat e else 1 / 2 ^ nat (- e))"

definition round_double :: "real \<Rightarrow> real" where
  "round_double x =
     (if x = 0 then 0
      else (let e = \<lfloor>log 2 \<bar>x\<bar>\<rfloor> - 52
            in of_int (round_half_even (x / pow2 e)) * pow2 e))"

definition int_truediv :: "real \<Rightarrow> nat \<Rightarrow> real" where
  "int_truediv a b = round_double (a / of_nat b)"

section \<open>The heap of the standard library (heapq), with a comparison that can raise\<close>

text \<open>
  \<open>heapq\<close> keeps a binary heap in a list. Its two loops are transcribed with the
  comparison \<open>lt\<close> as a parameter, because the two users of the heap compare differently:
  \<open>MunicipalityEdge.__lt__\<close> compares distances, while the tuples
  \<open>(distance, Municipality)\<close> of the selector compare lexicographically and reach the
  \<open>Municipality\<close> objects on a tie.  All list reads below are in range whenever
  \<open>pos < length heap\<close>, which \<open>heappush\<close> and \<open>heappop\<close> guarantee.
\<close>

type_synonym 'a less_than = "'a \<Rightarrow> 'a \<Rightarrow> py_error + bool"

function siftdown_loop :: "'a less_than \<Rightarrow> 'a \<Rightarrow> 'a list \<Rightarrow> nat \<Rightarrow> nat \<Rightarrow> py_error + 'a list" where
  "siftdown_loop lt newitem heap startpos pos =
     (if pos > startpos then
        (case lt newitem (heap ! ((pos - 1) div 2)) of
           Inl e \<Rightarrow> Inl e
         | Inr b \<Rightarrow>
             if b then siftdown_loop lt newitem (heap[pos := heap ! ((pos - 1) div 2)])
                         startpos ((pos - 1) div 2)
             else Inr (heap[pos := newitem]))
      else Inr (heap[pos := newitem]))"
  by pat_completeness auto
termination
  by (relation "measure (\<lambda>(lt, newitem, heap, startpos, pos). pos)") auto

declare siftdown_loop.simps [simp del]

definition siftdown :: "'a less_than \<Rightarrow> 'a list \<Rightarrow> nat \<Rightarrow> nat \<Rightarrow> py_error + 'a list" where
  "siftdown lt heap startpos pos = siftdown_loop lt (heap ! pos) heap startpos pos"

function siftup_loop :: "'a less_than \<Rightarrow> 'a list \<Rightarrow> nat \<Rightarrow> nat \<Rightarrow> py_error + ('a list \<times> nat)" where
  "siftup_loop lt heap endpos pos =
     (if 2 * pos + 1 < endpos then
        (if 2 * pos + 2 < endpos then
           (case lt (heap ! (2 * pos + 1)) (heap ! (2 * pos + 2)) of
              Inl e \<Rightarrow> Inl e
            | Inr b \<Rightarrow>
                if \<not> b
                then siftup_loop lt (heap[pos := heap ! (2 * pos + 2)]) endpos (2 * pos + 2)
                else siftup_loop lt (heap[pos := heap ! (2 * pos + 1)]) endpos (2 * pos + 1))
         else siftup_loop lt (heap[pos := heap ! (2 * pos + 1)]) endpos (2 * pos + 1))
      else Inr (heap, pos))"
  by pat_completeness auto
termination
  by (relation "measure (\<lambda>(lt, heap, endpos, pos). endpos - pos)") auto

declare siftup_loop.simps [simp del]

definition siftup :: "'a less_than \<Rightarrow> 'a list \<Rightarrow> nat \<Rightarrow> py_error + 'a list" where
  "siftup lt heap pos =
     (case siftup_loop lt heap (length heap) pos of
        Inl e \<Rightarrow> Inl e
      | Inr (heap', leaf) \<Rightarrow> siftdown lt (heap'[leaf := heap ! pos]) pos leaf)"

definition heappush :: "'a less_than \<Rightarrow> 'a list \<Rightarrow> 'a \<Rightarrow> py_error + 'a list" where
  "heappush lt heap item = siftdown lt (heap @ [item]) 0 (length heap)"

definition heappop :: "'a less_than \<Rightarrow> 'a list \<Rightarrow> py_error + ('a \<times> 'a list)" where
  "heappop lt heap =
     (if heap = [] then Inl IndexError
      else if butlast heap = [] then Inr (last heap, [])
      else (case siftup lt ((butlast heap)[0 := last heap]) 0 of
              Inl e \<Rightarrow> Inl e
            | Inr heap' \<Rightarrow> Inr (hd heap, heap')))"

section \<open>Distance function\<close>

text \<open>
  \<open>math.sqrt\<close> raises \<open>ValueError\<close> on a negative argument.
\<close>

definition math_sqrt :: "float_arith \<Rightarrow> real \<Rightarrow> py_error + real" where
  "math_sqrt fa x = (if x < 0 then Inl ValueError else Inr (fl_sqrt fa x))"

text \<open>
  \<open>getDistanceBetweenMunicipalities\<close>, operation by operation. The \<open>lru_cache\<close>
  decorator memoises a function that reads only the immutable coordinates of its
  arguments, so it does not change any result.
\<close>

definition haversine_a :: "float_arith \<Rightarrow> Municipality \<Rightarrow> Municipality \<Rightarrow> real" where
  "haversine_a fa muni1 muni2 =
     (let dLat = fl_radians fa (fl_sub fa (lat muni2) (lat muni1));
          dLon = fl_radians fa (fl_sub fa (lon muni2) (lon muni1));
          lat1 = fl_radians fa (lat muni1);
          lat2 = fl_radians fa (lat muni2)
      in fl_add fa (fl_pow fa (fl_sin fa (fl_div fa dLat 2)) 2)
           (fl_mul fa (fl_mul fa (fl_cos fa lat1) (fl_cos fa lat2))
              (fl_pow fa (fl_sin fa (fl_div fa dLon 2)) 2)))"

definition getDistanceBetweenMunicipalities ::
  "float_arith \<Rightarrow> Municipality \<Rightarrow> Municipality \<Rightarrow> py_error + real" where
  "getDistanceBetweenMunicipalities fa muni1 muni2 =
     (let R = 6371; a = haversine_a fa muni1 muni2
      in case math_sqrt fa a of
           Inl e \<Rightarrow> Inl e
         | Inr sa \<Rightarrow>
             (case math_sqrt fa (fl_sub fa 1 a) of
                Inl e \<Rightarrow> Inl e
              | Inr sb \<Rightarrow>
                  Inr (fl_div fa (fl_mul fa R (fl_mul fa 2 (fl_atan2 fa sa sb))) (fl_literal fa 1.609))))"

section \<open>The canonical selector and assembler (addEdgesToMunicipalitiesV2)\<close>

text \<open>
  The list \<open>codeToMunicipalityValues\<close> holds the objects of the mapping in iteration
  order; an object is identified by its position in that list, and the heap entry
  \<open>(distance, muni2)\<close> holds the position of \<open>muni2\<close>.

  Tuples compare lexicographically: the first components decide unless they are equal;
  then the second components are compared, and two distinct \<open>Municipality\<close> objects have
  no ordering, which raises \<open>TypeError\<close>.
\<close>

definition tuple_lt :: "(real \<times> nat) less_than" where
  "tuple_lt x y =
     (if fst x \<noteq> fst y then Inr (fst x < fst y)
      else if snd x = snd y then Inr False
      else Inl TypeError)"

text \<open>The first inner loop: push every other entity that is not yet a neighbour.\<close>

fun gatherCandidates ::
  "float_arith \<Rightarrow> Municipality list \<Rightarrow> nat \<Rightarrow> nat list \<Rightarrow> (real \<times> nat) list \<Rightarrow> py_error + (real \<times> nat) list" where
  "gatherCandidates fa ms i [] closenessHeap = Inr closenessHeap"
| "gatherCandidates fa ms i (j # js) closenessHeap =
     (if i = j then gatherCandidates fa ms i js closenessHeap
      else case neighbors (ms ! i) of
             None \<Rightarrow> Inl AttributeError
           | Some nb \<Rightarrow>
               if code (ms ! j) \<in> nb then gatherCandidates fa ms i js closenessHeap
               else (case getDistanceBetweenMunicipalities fa (ms ! i) (ms ! j) of
                       Inl e \<Rightarrow> Inl e
                     | Inr d \<Rightarrow>
                         (case heappush tuple_lt closenessHeap (d, j) of
                            Inl e \<Rightarrow> Inl e
                          | Inr heap' \<Rightarrow> gatherCandidates fa ms i js heap')))"

text \<open>
  The break condition of the second inner loop. \<open>MAX_DISTANCE\<close>, \<open>2**j\<close> and \<open>3**j\<close>
  are integers, so each threshold is the rounded quotient of two integers.
\<close>

definition exceedsGate :: "nat \<Rightarrow> real \<Rightarrow> bool" where
  "exceedsGate j d \<longleftrightarrow>
     (j < 3 \<and> d > int_truediv MAX_DISTANCE (2 ^ j)) \<or>
     (j \<ge> 3 \<and> d > int_truediv MAX_DISTANCE (3 ^ j))"

text \<open>
  The four statements that record one accepted candidate: an edge object appended to
  each endpoint, each code added to the other's \<open>_neighbors\<close>.
\<close>

definition appendEdge :: "Municipality \<Rightarrow> MunicipalityEdge \<Rightarrow> py_error + Municipality" where
  "appendEdge m e =
     (case neighbors m of
        None \<Rightarrow> Inl AttributeError
      | Some nb \<Rightarrow> Inr (m\<lparr>neighbors := Some (insert (toMuniCode e) nb), edges := edges m @ [e]\<rparr>))"

definition connectPair :: "Municipality list \<Rightarrow> nat \<Rightarrow> nat \<Rightarrow> real \<Rightarrow> py_error + Municipality list" where
  "connectPair ms i k d =
     (let edgeToMuni2 = \<lparr>fromMuniCode = code (ms ! i), toMuniCode = code (ms ! k), distance = d\<rparr>;
          edgeToMuni1 = \<lparr>fromMuniCode = code (ms ! k), toMuniCode = code (ms ! i), distance = d\<rparr>
      in case appendEdge (ms ! i) edgeToMuni2 of
           Inl e \<Rightarrow> Inl e
         | Inr muni1 \<Rightarrow>
             (case appendEdge (ms[i := muni1] ! k) edgeToMuni1 of
                Inl e \<Rightarrow> Inl e
              | Inr muni2 \<Rightarrow> Inr (ms[i := muni1, k := muni2])))"

text \<open>The second inner loop, over \<open>range(MAX_EDGES)\<close>.\<close>

fun acceptClosest ::
  "nat \<Rightarrow> nat list \<Rightarrow> (real \<times> nat) list \<Rightarrow> Municipality list \<Rightarrow> py_error + Municipality list" where
  "acceptClosest i [] closenessHeap ms = Inr ms"
| "acceptClosest i (j # js) closenessHeap ms =
     (if closenessHeap = [] then Inr ms
      else case heappop tuple_lt closenessHeap of
             Inl e \<Rightarrow> Inl e
           | Inr ((d, k), heap') \<Rightarrow>
               if exceedsGate j d then Inr ms
               else (case connectPair ms i k d of
                       Inl e \<Rightarrow> Inl e
                     | Inr ms' \<Rightarrow> acceptClosest i js heap' ms'))"

text \<open>One iteration of the outer loop, and the outer loop.\<close>

definition visitMunicipality ::
  "float_arith \<Rightarrow> nat \<Rightarrow> Municipality list \<Rightarrow> py_error + Municipality list" where
  "visitMunicipality fa i ms =
     (case gatherCandidates fa ms i [0..<length ms] [] of
        Inl e \<Rightarrow> Inl e
      | Inr closenessHeap \<Rightarrow> acceptClosest i [0..<MAX_EDGES] closenessHeap ms)"

fun visitAll ::
  "float_arith \<Rightarrow> nat list \<Rightarrow> Municipality list \<Rightarrow> py_error + Municipality list" where
  "visitAll fa [] ms = Inr ms"
| "visitAll fa (i # is) ms =
     (case visitMunicipality fa i ms of
        Inl e \<Rightarrow> Inl e
      | Inr ms' \<Rightarrow> visitAll fa is ms')"

definition buildGraph :: "float_arith \<Rightarrow> Municipality list \<Rightarrow> py_error + Municipality list" where
  "buildGraph fa ms = visitAll fa [0..<length ms] ms"

section \<open>Serialisation\<close>

datatype py_object =
    MunicipalityObj Municipality
  | MunicipalityEdgeObj MunicipalityEdge
  | OtherObj

text \<open>
  \<open>municipalityDictSerializer\<close> returns the \<open>__dict__\<close> of the live object, after deleting
  the key \<open>_neighbors\<close> from it; the result is therefore the state of the object itself.
\<close>

definition municipalityDictSerializer :: "py_object \<Rightarrow> py_error + py_object" where
  "municipalityDictSerializer obj =
     (case obj of
        MunicipalityObj m \<Rightarrow>
          (case neighbors m of
             None \<Rightarrow> Inl KeyError
           | Some nb \<Rightarrow> Inr (MunicipalityObj (m\<lparr>neighbors := None\<rparr>)))
      | MunicipalityEdgeObj e \<Rightarrow> Inr (MunicipalityEdgeObj e)
      | OtherObj \<Rightarrow> Inl TypeError)"

text \<open>
  \<open>json.dump(codeToMunicipality, file, default=municipalityDictSerializer)\<close> calls the
  serialiser once for each value of the mapping, in order; the list returned here is
  the state of the objects afterwards. The text written to the file is not modelled.
\<close>

fun json_dump :: "Municipality list \<Rightarrow> py_error + Municipality list" where
  "json_dump [] = Inr []"
| "json_dump (m # ms) =
     (case municipalityDictSerializer (MunicipalityObj m) of
        Inr (MunicipalityObj m') \<Rightarrow>
          (case json_dump ms of Inl e \<Rightarrow> Inl e | Inr ms' \<Rightarrow> Inr (m' # ms'))
      | Inr _ \<Rightarrow> Inl TypeError
      | Inl e \<Rightarrow> Inl e)"

definition addEdgesToMunicipalitiesV2 ::
  "float_arith \<Rightarrow> Municipality list \<Rightarrow> py_error + Municipality list" where
  "addEdgesToMunicipalitiesV2 fa codeToMunicipalityValues =
     (case buildGraph fa codeToMunicipalityValues of
        Inl e \<Rightarrow> Inl e
      | Inr ms \<Rightarrow> json_dump ms)"

section \<open>The superseded builder driven by an edge list (test.py)\<close>

text \<open>
  \<open>MunicipalityEdge.__lt__\<close> compares distances and never raises.
  \<open>setEdgeDistance\<close> replaces a distance that Python treats as false, which for the
  float read from the edge file is \<open>0.0\<close>.
\<close>

definition edge_lt :: "MunicipalityEdge less_than" where
  "edge_lt self other = Inr (distance self < distance other)"

definition setEdgeDistance :: "MunicipalityEdge \<Rightarrow> real \<Rightarrow> MunicipalityEdge" where
  "setEdgeDistance self d = (if distance self = 0 then self\<lparr>distance := d\<rparr> else self)"

definition startswith :: "string \<Rightarrow> string \<Rightarrow> bool" where
  "startswith s p \<longleftrightarrow> take (length p) s = p"

definition isValidDistance :: "MunicipalityEdge \<Rightarrow> bool" where
  "isValidDistance edge \<longleftrightarrow>
     distance edge < MAX_DISTANCE \<or>
     ((startswith (fromMuniCode edge) ''09'' \<or> startswith (toMuniCode edge) ''09'')
      \<and> distance edge < 2 * MAX_DISTANCE)"

text \<open>
  \<open>Municipality.addEdge\<close>. The read \<open>self.edges[0]\<close> happens only when
  \<open>len(self.edges) < MAX_EDGES\<close> is false, so the list is not empty there.
\<close>

definition addEdge :: "Municipality \<Rightarrow> MunicipalityEdge \<Rightarrow> py_error + Municipality" where
  "addEdge self edge =
     (if isValidDistance edge \<and>
         (length (edges self) < MAX_EDGES \<or> distance edge > distance (edges self ! 0))
      then (case heappush edge_lt (edges self) edge of
              Inl e \<Rightarrow> Inl e
            | Inr es \<Rightarrow>
                if length es > MAX_EDGES
                then (case heappop edge_lt es of
                        Inl e \<Rightarrow> Inl e
                      | Inr (smallest, es') \<Rightarrow> Inr (self\<lparr>edges := es'\<rparr>))
                else Inr (self\<lparr>edges := es\<rparr>))
      else Inr self)"

text \<open>
  \<open>accountForMexicoCity\<close> stores one more entity under the key \<open>09001\<close>; the letter
  e-acute of its name is written as its two UTF-8 bytes.
\<close>

definition accountForMexicoCity :: "(string \<rightharpoonup> Municipality) \<Rightarrow> (string \<rightharpoonup> Municipality)" where
  "accountForMexicoCity codeToMunicipality =
     codeToMunicipality(''09001'' \<mapsto>
       Municipality_init (''Ciudad de M'' @ [CHR 0xC3, CHR 0xA9] @ ''xico'')
         (''Ciudad de M'' @ [CHR 0xC3, CHR 0xA9] @ ''xico'') ''09001'' 19.4326 (- 99.1332) True)"

text \<open>
  The loop of \<open>addEdgesToMunicipalities\<close> over the sorted edge list: both endpoints are
  looked up (a missing key raises \<open>KeyError\<close>), the distance is computed, and the edge is
  offered to the source entity only.
\<close>

fun addEdgesLoop ::
  "float_arith \<Rightarrow> MunicipalityEdge list \<Rightarrow> (string \<rightharpoonup> Municipality) \<Rightarrow> py_error + (string \<rightharpoonup> Municipality)" where
  "addEdgesLoop fa [] codesToMunicipalities = Inr codesToMunicipalities"
| "addEdgesLoop fa (edge # rest) codesToMunicipalities =
     (case codesToMunicipalities (fromMuniCode edge) of
        None \<Rightarrow> Inl KeyError
      | Some fromMuni \<Rightarrow>
          (case codesToMunicipalities (toMuniCode edge) of
             None \<Rightarrow> Inl KeyError
           | Some toMuni \<Rightarrow>
               (case getDistanceBetweenMunicipalities fa fromMuni toMuni of
                  Inl e \<Rightarrow> Inl e
                | Inr d \<Rightarrow>
                    (case addEdge fromMuni (setEdgeDistance edge d) of
                       Inl e \<Rightarrow> Inl e
                     | Inr fromMuni' \<Rightarrow>
                         addEdgesLoop fa rest (codesToMunicipalities(fromMuniCode edge \<mapsto> fromMuni'))))))"

text \<open>
  \<open>edges.sort(key=lambda x: x.distance, reverse=True)\<close> is a stable sort by descending
  distance. The mapping read from the file and the edge list read from the file are the
  two inputs.
\<close>

definition addEdgesToMunicipalities ::
  "float_arith \<Rightarrow> (string \<rightharpoonup> Municipality) \<Rightarrow> MunicipalityEdge list \<Rightarrow> py_error + (string \<rightharpoonup> Municipality)" where
  "addEdgesToMunicipalities fa codeToMunicipality edgeList =
     addEdgesLoop fa (sort_key (\<lambda>x. - distance x) edgeList) (accountForMexicoCity codeToMunicipality)"

section \<open>Auxiliary definitions for the properties\<close>

text \<open>
  Exact arithmetic: the instance of \<open>float_arith\<close> in which no operation rounds, with
  \<open>math.radians\<close> and \<open>math.atan2\<close> as the functions on the reals that they
  approximate. The concrete inputs below are evaluated in it.
\<close>

definition radians :: "real \<Rightarrow> real" where
  "radians x = x * (pi / 180)"

definition atan2 :: "real \<Rightarrow> real \<Rightarrow> real" where
  "atan2 y x =
     (if 0 < x then arctan (y / x)
      else if x < 0 \<and> 0 \<le> y then arctan (y / x) + pi
      else if x < 0 \<and> y < 0 then arctan (y / x) - pi
      else if 0 < y then pi / 2
      else if y < 0 then - (pi / 2)
      else 0)"

definition exact_arith :: float_arith where
  "exact_arith =
     \<lparr>fl_add = (+), fl_sub = (-), fl_mul = (*), fl_div = (/), fl_pow = (^),
      fl_literal = (\<lambda>x. x), fl_radians = radians, fl_sin = sin, fl_cos = cos,
      fl_sqrt = sqrt, fl_atan2 = atan2\<rparr>"

text \<open>
  The length in miles of one degree of latitude under the constants of the distance
  function, and the distance of two points on one meridian.
\<close>

definition degreeMiles :: real where
  "degreeMiles = 6371 * (pi / 180) / 1.609"

definition milesOfDegrees :: "real \<Rightarrow> real" where
  "milesOfDegrees x = degreeMiles * x"

text \<open>
  The formula as the specification words it (angles in degrees, converted to radians), and
  the central angle of two points on the sphere by the spherical law of cosines.
\<close>

definition haversine_miles :: "real \<Rightarrow> real \<Rightarrow> real \<Rightarrow> real \<Rightarrow> real" where
  "haversine_miles lat1 lon1 lat2 lon2 =
     (let a = (sin ((lat2 - lat1) * pi / 180 / 2))\<^sup>2
              + cos (lat1 * pi / 180) * cos (lat2 * pi / 180) * (sin ((lon2 - lon1) * pi / 180 / 2))\<^sup>2;
          c = 2 * atan2 (sqrt a) (sqrt (1 - a))
      in 6371 * c / 1.609)"

definition central_angle :: "real \<Rightarrow> real \<Rightarrow> real \<Rightarrow> real \<Rightarrow> real" where
  "central_angle lat1 lon1 lat2 lon2 =
     arccos (sin (lat1 * pi / 180) * sin (lat2 * pi / 180)
             + cos (lat1 * pi / 180) * cos (lat2 * pi / 180) * cos ((lon2 - lon1) * pi / 180))"

text \<open>
  Operations that treat the sign symmetrically: subtraction is antisymmetric, the
  conversion to radians, the halving and the sine are odd, the square is even, and the
  multiplication commutes. IEEE 754 arithmetic in round-to-nearest has these properties
  for its operators; for \<open>math.sin\<close> it is a property of the C library.
\<close>

definition sign_symmetric :: "float_arith \<Rightarrow> bool" where
  "sign_symmetric fa \<longleftrightarrow>
     (\<forall>x y. fl_sub fa x y = - fl_sub fa y x) \<and>
     (\<forall>x. fl_radians fa (- x) = - fl_radians fa x) \<and>
     (\<forall>x. fl_div fa (- x) 2 = - fl_div fa x 2) \<and>
     (\<forall>x. fl_sin fa (- x) = - fl_sin fa x) \<and>
     (\<forall>x. fl_pow fa (- x) 2 = fl_pow fa x 2) \<and>
     (\<forall>x y. fl_mul fa x y = fl_mul fa y x)"

text \<open>
  The heap invariant of \<open>heapq\<close> with respect to a key, a comparison that agrees with
  the key whenever it returns, and a set on which the comparison never raises.
\<close>

definition heap_ordered :: "('a \<Rightarrow> real) \<Rightarrow> 'a list \<Rightarrow> bool" where
  "heap_ordered key h \<longleftrightarrow> (\<forall>p. 0 < p \<and> p < length h \<longrightarrow> key (h ! ((p - 1) div 2)) \<le> key (h ! p))"

definition orders_by :: "'a less_than \<Rightarrow> ('a \<Rightarrow> real) \<Rightarrow> bool" where
  "orders_by lt key \<longleftrightarrow> (\<forall>x y b. lt x y = Inr b \<longrightarrow> (b \<longleftrightarrow> key x < key y))"

definition comparable :: "'a less_than \<Rightarrow> 'a set \<Rightarrow> bool" where
  "comparable lt S \<longleftrightarrow> (\<forall>x\<in>S. \<forall>y\<in>S. \<exists>b. lt x y = Inr b)"

text \<open>
  Auxiliary notions for the invariants of the assembler: a run of \<open>connectPair\<close> over a list
  of accepted candidates, the candidates of a visit, the fields that no visit changes, and
  the three parts of the graph invariant.
\<close>

fun connectAll :: "Municipality list \<Rightarrow> nat \<Rightarrow> (real \<times> nat) list \<Rightarrow> py_error + Municipality list" where
  "connectAll ms i [] = Inr ms"
| "connectAll ms i ((d, k) # acc) =
     (case connectPair ms i k d of Inl e \<Rightarrow> Inl e | Inr ms' \<Rightarrow> connectAll ms' i acc)"

definition candidates :: "Municipality list \<Rightarrow> nat \<Rightarrow> nat list" where
  "candidates ms i =
     [j \<leftarrow> [0..<length ms]. j \<noteq> i \<and> (case neighbors (ms ! i) of None \<Rightarrow> False | Some nb \<Rightarrow> code (ms ! j) \<notin> nb)]"

definition same_entities :: "Municipality list \<Rightarrow> Municipality list \<Rightarrow> bool" where
  "same_entities ms ms' \<longleftrightarrow>
     length ms' = length ms \<and>
     (\<forall>j<length ms. code (ms' ! j) = code (ms ! j) \<and> lat (ms' ! j) = lat (ms ! j) \<and> lon (ms' ! j) = lon (ms ! j))"

definition neighbors_ok :: "Municipality list \<Rightarrow> bool" where
  "neighbors_ok ms \<longleftrightarrow> (\<forall>i<length ms. neighbors (ms ! i) = Some (toMuniCode ` set (edges (ms ! i))))"

definition mutual_edges :: "Municipality list \<Rightarrow> bool" where
  "mutual_edges ms \<longleftrightarrow>
     (\<forall>i<length ms. \<forall>e\<in>set (edges (ms ! i)).
        fromMuniCode e = code (ms ! i) \<and>
        (\<exists>j<length ms. j \<noteq> i \<and> code (ms ! j) = toMuniCode e \<and>
           \<lparr>fromMuniCode = code (ms ! j), toMuniCode = code (ms ! i), distance = distance e\<rparr>
             \<in> set (edges (ms ! j))))"

definition simple_edges :: "Municipality list \<Rightarrow> bool" where
  "simple_edges ms \<longleftrightarrow> (\<forall>i<length ms. distinct (map toMuniCode (edges (ms ! i))))"

definition has_neighbors :: "Municipality list \<Rightarrow> bool" where
  "has_neighbors ms \<longleftrightarrow> (\<forall>m\<in>set ms. neighbors m \<noteq> None)"

definition edgeTo :: "Municipality list \<Rightarrow> nat \<Rightarrow> real \<times> nat \<Rightarrow> MunicipalityEdge" where
  "edgeTo ms i x = \<lparr>fromMuniCode = code (ms ! i), toMuniCode = code (ms ! snd x), distance = fst x\<rparr>"

definition graph_inv :: "Municipality list \<Rightarrow> bool" where
  "graph_inv ms \<longleftrightarrow> distinct (map code ms) \<and> neighbors_ok ms \<and> mutual_edges ms \<and> simple_edges ms"

text \<open>
  The threshold of the acceptance gate at rank \<open>j\<close>, and the values of the ten
  thresholds that the loop over \<open>range(MAX_EDGES)\<close> uses.
\<close>

definition gate :: "nat \<Rightarrow> real" where
  "gate j = (if j < 3 then int_truediv MAX_DISTANCE (2 ^ j) else int_truediv MAX_DISTANCE (3 ^ j))"

definition gate_table :: "real list" where
  "gate_table =
     [100, 50, 25,
      8339999309945363 / 2251799813685248,
      5559999539963575 / 4503599627370496,
      3706666359975717 / 9007199254740992,
      1235555453325239 / 9007199254740992,
      3294814542200637 / 72057594037927936,
      8786172112535033 / 576460752303423488,
      5857448075023355 / 1152921504606846976]"

text \<open>
  Preconditions of an error-free run: every call of the distance function returns, and
  the distances it returns from one entity to two different other entities differ.
\<close>

definition distances_defined :: "float_arith \<Rightarrow> Municipality list \<Rightarrow> bool" where
  "distances_defined fa ms \<longleftrightarrow>
     (\<forall>i<length ms. \<forall>j<length ms. \<exists>d. getDistanceBetweenMunicipalities fa (ms ! i) (ms ! j) = Inr d)"

definition distances_distinct :: "float_arith \<Rightarrow> Municipality list \<Rightarrow> bool" where
  "distances_distinct fa ms \<longleftrightarrow>
     (\<forall>i<length ms. \<forall>j<length ms. \<forall>k<length ms. j \<noteq> i \<and> k \<noteq> i \<and> j \<noteq> k \<longrightarrow>
        getDistanceBetweenMunicipalities fa (ms ! i) (ms ! j)
          \<noteq> getDistanceBetweenMunicipalities fa (ms ! i) (ms ! k))"

text \<open>
  The admission rule of \<open>Municipality.addEdge\<close> in the words of the specification: the
  distance is below \<open>MAX_DISTANCE\<close>, or below twice that when an endpoint code starts
  with \<open>09\<close>, and the retained list is under capacity or the new edge is more distant
  than the smallest retained edge. And: no edge of any entity is longer than a bound.
\<close>

definition spec_admits :: "Municipality \<Rightarrow> MunicipalityEdge \<Rightarrow> bool" where
  "spec_admits self edge \<longleftrightarrow>
     (distance edge < MAX_DISTANCE \<or>
      ((startswith (fromMuniCode edge) ''09'' \<or> startswith (toMuniCode edge) ''09'')
       \<and> distance edge < 2 * MAX_DISTANCE)) \<and>
     (length (edges self) < MAX_EDGES \<or> Min (distance ` set (edges self)) < distance edge)"

definition edges_within :: "real \<Rightarrow> Municipality list \<Rightarrow> bool" where
  "edges_within D ms \<longleftrightarrow> (\<forall>j<length ms. \<forall>e\<in>set (edges (ms ! j)). distance e \<le> D)"

section \<open>Example inputs\<close>

text \<open>
  Three entities on the meridian \<open>0\<close>, at latitudes \<open>0\<close>, \<open>0.45\<close> and \<open>1\<close> degrees
  (about 31 and 69 miles from the first), and what the assembler returns for them.
\<close>

definition townA :: Municipality where
  "townA = Municipality_init ''A'' ''S'' ''01001'' 0 0 False"

definition townB :: Municipality where
  "townB = Municipality_init ''B'' ''S'' ''01002'' 0.45 0 False"

definition townC :: Municipality where
  "townC = Municipality_init ''C'' ''S'' ''01003'' 1 0 False"

definition threeTowns :: "Municipality list" where
  "threeTowns = [townA, townB, townC]"

definition threeTowns_out :: "Municipality list" where
  "threeTowns_out =
     [townA\<lparr>neighbors := None,
        edges := [\<lparr>fromMuniCode = ''01001'', toMuniCode = ''01002'', distance = milesOfDegrees (9 / 20)\<rparr>,
                  \<lparr>fromMuniCode = ''01001'', toMuniCode = ''01003'', distance = milesOfDegrees 1\<rparr>]\<rparr>,
      townB\<lparr>neighbors := None,
        edges := [\<lparr>fromMuniCode = ''01002'', toMuniCode = ''01001'', distance = milesOfDegrees (9 / 20)\<rparr>,
                  \<lparr>fromMuniCode = ''01002'', toMuniCode = ''01003'', distance = milesOfDegrees (11 / 20)\<rparr>]\<rparr>,
      townC\<lparr>neighbors := None,
        edges := [\<lparr>fromMuniCode = ''01003'', toMuniCode = ''01002'', distance = milesOfDegrees (11 / 20)\<rparr>,
                  \<lparr>fromMuniCode = ''01003'', toMuniCode = ''01001'', distance = milesOfDegrees 1\<rparr>]\<rparr>]"




text \<open>
  Further inputs on the meridian 0, the state after the first visit of the three entities,
  and the result for the three entities in another iteration order.
\<close>

definition townAt :: "string \<Rightarrow> real \<Rightarrow> Municipality" where
  "townAt c la = Municipality_init c ''S'' c la 0 False"

definition gateTowns :: "Municipality list" where
  "gateTowns = [townAt ''01001'' 0, townAt ''01002'' 1, townAt ''01003'' (- 11 / 10)]"

definition threeTowns_visit0 :: "Municipality list" where
  "threeTowns_visit0 =
     [townA\<lparr>neighbors := Some {''01002''},
        edges := [\<lparr>fromMuniCode = ''01001'', toMuniCode = ''01002'', distance = milesOfDegrees (9 / 20)\<rparr>]\<rparr>,
      townB\<lparr>neighbors := Some {''01001''},
        edges := [\<lparr>fromMuniCode = ''01002'', toMuniCode = ''01001'', distance = milesOfDegrees (9 / 20)\<rparr>]\<rparr>,
      townC]"


text \<open>
  Five entities on the meridian 0 in which the first has two other entities at the same
  distance (latitudes 1.8 and -1.8 degrees), with the result of the assembler, and three
  entities in which the two others are at the same distance from the first (latitudes 1
  and -1 degrees).
\<close>

definition tieTowns :: "Municipality list" where
  "tieTowns = [townAt ''01001'' 0, townAt ''01002'' (8 / 5), townAt ''01003'' (17 / 10),
               townAt ''01004'' (9 / 5), townAt ''01005'' (- 9 / 5)]"

definition tieTowns_out :: "Municipality list" where
  "tieTowns_out =
     [(townAt ''01001'' 0)\<lparr>neighbors := None\<rparr>,
      (townAt ''01002'' (8 / 5))\<lparr>neighbors := None,
        edges := [\<lparr>fromMuniCode = ''01002'', toMuniCode = ''01003'', distance = milesOfDegrees (1 / 10)\<rparr>,
                  \<lparr>fromMuniCode = ''01002'', toMuniCode = ''01004'', distance = milesOfDegrees (1 / 5)\<rparr>]\<rparr>,
      (townAt ''01003'' (17 / 10))\<lparr>neighbors := None,
        edges := [\<lparr>fromMuniCode = ''01003'', toMuniCode = ''01002'', distance = milesOfDegrees (1 / 10)\<rparr>,
                  \<lparr>fromMuniCode = ''01003'', toMuniCode = ''01004'', distance = milesOfDegrees (1 / 10)\<rparr>]\<rparr>,
      (townAt ''01004'' (9 / 5))\<lparr>neighbors := None,
        edges := [\<lparr>fromMuniCode = ''01004'', toMuniCode = ''01002'', distance = milesOfDegrees (1 / 5)\<rparr>,
                  \<lparr>fromMuniCode = ''01004'', toMuniCode = ''01003'', distance = milesOfDegrees (1 / 10)\<rparr>]\<rparr>,
      (townAt ''01005'' (- 9 / 5))\<lparr>neighbors := None\<rparr>]"

definition mirrorTowns :: "Municipality list" where
  "mirrorTowns = [townAt ''01001'' 0, townAt ''01002'' 1, townAt ''01003'' (- 1)]"

text \<open>
  Two entities whose codes start with \<open>09\<close>, two degrees of latitude (about 138 miles)
  apart, and the edge between them; an entity that retains \<open>MAX_EDGES\<close> edges, and a
  further edge for it.
\<close>

definition capitalTowns :: "Municipality list" where
  "capitalTowns = [townAt ''09001'' 0, townAt ''09002'' 2]"

definition capitalEdge :: MunicipalityEdge where
  "capitalEdge = \<lparr>fromMuniCode = ''09001'', toMuniCode = ''09002'', distance = milesOfDegrees 2\<rparr>"

definition fullTown :: Municipality where
  "fullTown = (townAt ''09001'' 0)\<lparr>edges :=
     map (\<lambda>d. \<lparr>fromMuniCode = ''09001'', toMuniCode = ''09002'', distance = d\<rparr>)
       [10, 20, 30, 40, 50, 60, 70, 80, 90, 95]\<rparr>"

definition farEdge :: MunicipalityEdge where
  "farEdge = \<lparr>fromMuniCode = ''09001'', toMuniCode = ''09003'', distance = 150\<rparr>"

text \<open>
  Twelve entities on the meridian 0: one at latitude 0, one at 1.1 degrees (about 76
  miles away), and ten within 0.00003 degrees south of the first.
\<close>

definition hubTowns :: "Municipality list" where
  "hubTowns =
     [townAt ''01001'' 0, townAt ''01002'' (11 / 10),
      townAt ''01003'' (- 1 / 1000000), townAt ''01004'' (- 3 / 1000000),
      townAt ''01005'' (- 4 / 1000000), townAt ''01006'' (- 9 / 1000000),
      townAt ''01007'' (- 10 / 1000000), townAt ''01008'' (- 12 / 1000000),
      townAt ''01009'' (- 13 / 1000000), townAt ''01010'' (- 27 / 1000000),
      townAt ''01011'' (- 28 / 1000000), townAt ''01012'' (- 30 / 1000000)]"




section \<open>The rounded thresholds of the gate\<close>

lemma pow2_powr: "pow2 e = 2 powr of_int e"
  by (simp add: pow2_def powr_real_of_int inverse_eq_divide)

lemma round_double_eval:
  assumes "0 < x" "pow2 k \<le> x" "x < pow2 (k + 1)"
  shows "round_double x = of_int (round_half_even (x / pow2 (k - 52))) * pow2 (k - 52)"
proof -
  have "of_int k \<le> log 2 x" using assms(1,2) by (simp add: le_log_iff pow2_powr)
  moreover have "log 2 x < of_int k + 1" using assms(1,3) by (simp add: log_less_iff pow2_powr)
  ultimately have "\<lfloor>log 2 x\<rfloor> = k" by (simp add: floor_eq_iff)
  then show ?thesis using assms(1) by (simp add: round_double_def Let_def)
qed

lemma int_truediv_100:
  "int_truediv 100 (Suc 0) = 100"
  "int_truediv 100 2 = 50"
  "int_truediv 100 4 = 25"
  unfolding int_truediv_def
  using round_double_eval[of 100 6] round_double_eval[of 50 5] round_double_eval[of 25 4]
  by (simp_all add: round_half_even_def pow2_def)

lemma int_truediv_100_27: "int_truediv 100 27 = 8339999309945363 / 2251799813685248"
  unfolding int_truediv_def
  using round_double_eval[of "100 / 27" 1] by (simp add: round_half_even_def pow2_def)

lemma int_truediv_100_81: "int_truediv 100 81 = 5559999539963575 / 4503599627370496"
  unfolding int_truediv_def
  using round_double_eval[of "100 / 81" 0] by (simp add: round_half_even_def pow2_def)

lemma int_truediv_100_243: "int_truediv 100 243 = 3706666359975717 / 9007199254740992"
  unfolding int_truediv_def
  using round_double_eval[of "100 / 243" "- 2"] by (simp add: round_half_even_def pow2_def)

lemma int_truediv_100_729: "int_truediv 100 729 = 1235555453325239 / 9007199254740992"
  unfolding int_truediv_def
  using round_double_eval[of "100 / 729" "- 3"] by (simp add: round_half_even_def pow2_def)

lemma int_truediv_100_2187: "int_truediv 100 2187 = 3294814542200637 / 72057594037927936"
  unfolding int_truediv_def
  using round_double_eval[of "100 / 2187" "- 5"] by (simp add: round_half_even_def pow2_def)

lemma int_truediv_100_6561: "int_truediv 100 6561 = 8786172112535033 / 576460752303423488"
  unfolding int_truediv_def
  using round_double_eval[of "100 / 6561" "- 7"] by (simp add: round_half_even_def pow2_def)

lemma int_truediv_100_19683: "int_truediv 100 19683 = 5857448075023355 / 1152921504606846976"
  unfolding int_truediv_def
  using round_double_eval[of "100 / 19683" "- 8"] by (simp add: round_half_even_def pow2_def)

lemmas int_truediv_simps =
  int_truediv_100 int_truediv_100_27 int_truediv_100_81 int_truediv_100_243 int_truediv_100_729
  int_truediv_100_2187 int_truediv_100_6561 int_truediv_100_19683

lemma less_10_cases:
  "j < 10 \<Longrightarrow> j = 0 \<or> j = 1 \<or> j = 2 \<or> j = 3 \<or> j = 4 \<or> j = 5 \<or> j = 6 \<or> j = 7 \<or> j = 8 \<or> j = (9::nat)"
  by arith

lemma gate_table:
  assumes "j < 10"
  shows "gate j = gate_table ! j"
  using less_10_cases[OF assms]
  by (elim disjE) (simp_all add: gate_def gate_table_def MAX_DISTANCE_def int_truediv_simps)

lemma exceedsGate_gate: "exceedsGate j d \<longleftrightarrow> gate j < d"
  by (auto simp: exceedsGate_def gate_def)

lemma exceedsGate_table: "j < 10 \<Longrightarrow> exceedsGate j d = (gate_table ! j < d)"
  by (simp add: exceedsGate_gate gate_table)

lemma gate_le:
  assumes "j < 10"
  shows "gate j \<le> MAX_DISTANCE"
  using less_10_cases[OF assms]
  by (elim disjE) (simp_all add: gate_table gate_table_def MAX_DISTANCE_def)


section \<open>The distance function in exact arithmetic\<close>

lemma math_sqrt_exact:
  "math_sqrt exact_arith x = (if x < 0 then Inl ValueError else Inr (sqrt x))"
  by (simp add: math_sqrt_def exact_arith_def)

lemma haversine_a_exact:
  "haversine_a exact_arith muni1 muni2 =
     (let dLat = radians (lat muni2 - lat muni1);
          dLon = radians (lon muni2 - lon muni1);
          lat1 = radians (lat muni1);
          lat2 = radians (lat muni2)
      in (sin (dLat / 2))\<^sup>2 + cos lat1 * cos lat2 * (sin (dLon / 2))\<^sup>2)"
  by (simp add: haversine_a_def exact_arith_def Let_def)

lemma getDistance_exact:
  "getDistanceBetweenMunicipalities exact_arith muni1 muni2 =
     (let R = 6371; a = haversine_a exact_arith muni1 muni2
      in case math_sqrt exact_arith a of
           Inl e \<Rightarrow> Inl e
         | Inr sa \<Rightarrow>
             (case math_sqrt exact_arith (1 - a) of
                Inl e \<Rightarrow> Inl e
              | Inr sb \<Rightarrow> Inr (R * (2 * atan2 sa sb) / 1.609)))"
  unfolding getDistanceBetweenMunicipalities_def Let_def
  by (simp add: exact_arith_def split: sum.splits)

lemma pi_ge_3: "3 \<le> pi"
proof -
  have "sin (pi / 6) \<le> pi / 6" by (rule sin_x_le_x) simp
  then show ?thesis by (simp add: sin_30)
qed

lemma degreeMiles_bounds: "65 < degreeMiles" "degreeMiles < 88"
  using pi_ge_3 pi_less_4 by (simp_all add: degreeMiles_def field_simps)

lemma degreeMiles_pos: "0 < degreeMiles"
  using degreeMiles_bounds(1) by simp

lemma atan2_abs_sin_cos:
  assumes "\<bar>x\<bar> < pi / 2"
  shows "atan2 \<bar>sin x\<bar> \<bar>cos x\<bar> = \<bar>x\<bar>"
proof -
  have c: "0 < cos x" using assms by (intro cos_gt_zero_pi) (auto simp: abs_less_iff)
  have s: "\<bar>sin x\<bar> = sin \<bar>x\<bar>"
    using assms sin_ge_zero[of "\<bar>x\<bar>"] pi_gt_zero
    by (cases "0 \<le> x") (auto simp: abs_if)
  have "atan2 \<bar>sin x\<bar> \<bar>cos x\<bar> = arctan (sin \<bar>x\<bar> / cos \<bar>x\<bar>)"
    using c s by (simp add: atan2_def abs_if)
  also have "\<dots> = arctan (tan \<bar>x\<bar>)" by (simp add: tan_def)
  also have "\<dots> = \<bar>x\<bar>" using assms by (intro arctan_tan) auto
  finally show ?thesis .
qed

lemma getDistance_same_meridian:
  assumes "lon muni1 = lon muni2" and "\<bar>lat muni2 - lat muni1\<bar> < 180"
  shows "getDistanceBetweenMunicipalities exact_arith muni1 muni2 = Inr (degreeMiles * \<bar>lat muni2 - lat muni1\<bar>)"
proof -
  define x where "x = radians (lat muni2 - lat muni1) / 2"
  have "\<bar>x\<bar> = \<bar>lat muni2 - lat muni1\<bar> * (pi / 360)"
    by (simp add: x_def radians_def abs_mult)
  also have "\<dots> < 180 * (pi / 360)"
    using assms(2) by (intro mult_strict_right_mono) simp_all
  finally have x: "\<bar>x\<bar> < pi / 2" by simp
  have a: "haversine_a exact_arith muni1 muni2 = (sin x)\<^sup>2"
    using assms(1) by (simp add: haversine_a_exact x_def radians_def)
  have b: "1 - (sin x)\<^sup>2 = (cos x)\<^sup>2" by (simp add: cos_squared_eq)
  have "getDistanceBetweenMunicipalities exact_arith muni1 muni2 = Inr (6371 * (2 * atan2 \<bar>sin x\<bar> \<bar>cos x\<bar>) / 1.609)"
    by (simp add: getDistance_exact a b math_sqrt_exact)
  also have "\<dots> = Inr (6371 * (2 * \<bar>x\<bar>) / 1.609)" by (simp add: atan2_abs_sin_cos[OF x])
  also have "2 * \<bar>x\<bar> = \<bar>lat muni2 - lat muni1\<bar> * (pi / 180)"
    by (simp add: x_def radians_def abs_mult)
  finally show ?thesis by (simp add: degreeMiles_def)
qed

lemma milesOfDegrees_less [simp]: "milesOfDegrees a < milesOfDegrees b \<longleftrightarrow> a < b"
  by (simp add: milesOfDegrees_def degreeMiles_pos)

lemma milesOfDegrees_eq [simp]: "milesOfDegrees a = milesOfDegrees b \<longleftrightarrow> a = b"
  using degreeMiles_pos by (simp add: milesOfDegrees_def)

lemma milesOfDegrees_gt_True: "0 < a \<Longrightarrow> t \<le> 65 * a \<Longrightarrow> (t < milesOfDegrees a) = True"
proof -
  assume a: "0 < a" and t: "t \<le> 65 * a"
  have "65 * a < degreeMiles * a" using a degreeMiles_bounds(1) by simp
  then show ?thesis using t by (simp add: milesOfDegrees_def)
qed

lemma milesOfDegrees_gt_False: "0 \<le> a \<Longrightarrow> 88 * a \<le> t \<Longrightarrow> (t < milesOfDegrees a) = False"
proof -
  assume a: "0 \<le> a" and t: "88 * a \<le> t"
  have "degreeMiles * a \<le> 88 * a" using a degreeMiles_bounds(2) by (intro mult_right_mono) simp_all
  then show ?thesis using t by (simp add: milesOfDegrees_def)
qed

lemma milesOfDegrees_times_gt_False:
  "0 \<le> a \<Longrightarrow> 0 \<le> c \<Longrightarrow> 88 * a * c \<le> t \<Longrightarrow> (t < milesOfDegrees a * c) = False"
proof -
  assume a: "0 \<le> a" and c: "0 \<le> c" and t: "88 * a * c \<le> t"
  have "degreeMiles * a \<le> 88 * a" using a degreeMiles_bounds(2) by (intro mult_right_mono) simp_all
  then have "degreeMiles * a * c \<le> 88 * a * c" using c by (rule mult_right_mono)
  then show ?thesis using t by (simp add: milesOfDegrees_def)
qed

lemma milesOfDegrees_times_gt_True:
  "0 < a \<Longrightarrow> 0 < c \<Longrightarrow> t \<le> 65 * a * c \<Longrightarrow> (t < milesOfDegrees a * c) = True"
proof -
  assume a: "0 < a" and c: "0 < c" and t: "t \<le> 65 * a * c"
  have "65 * a < degreeMiles * a" using a degreeMiles_bounds(1) by simp
  then have "65 * a * c < degreeMiles * a * c" using c by (rule mult_strict_right_mono)
  then show ?thesis using t by (simp add: milesOfDegrees_def)
qed

lemma getDistance_meridian_eval:
  "lon muni1 = lon muni2 \<Longrightarrow> \<bar>lat muni2 - lat muni1\<bar> < 180 \<Longrightarrow>
   getDistanceBetweenMunicipalities exact_arith muni1 muni2 = Inr (milesOfDegrees \<bar>lat muni2 - lat muni1\<bar>)"
  by (simp add: getDistance_same_meridian milesOfDegrees_def)

lemma haversine_a_symmetric: "haversine_a exact_arith muni1 muni2 = haversine_a exact_arith muni2 muni1"
proof -
  have s: "(sin (radians (x - y) / 2))\<^sup>2 = (sin (radians (y - x) / 2))\<^sup>2" for x y :: real
  proof -
    have "radians (x - y) / 2 = - (radians (y - x) / 2)" by (simp add: radians_def field_simps)
    then show ?thesis by (simp only: sin_minus power2_minus)
  qed
  show ?thesis
    unfolding haversine_a_exact Let_def
    by (simp add: s[of "lat muni1" "lat muni2"] s[of "lon muni1" "lon muni2"] mult.commute)
qed

lemma getDistance_commute:
  "getDistanceBetweenMunicipalities exact_arith muni1 muni2 = getDistanceBetweenMunicipalities exact_arith muni2 muni1"
  by (simp add: getDistance_exact haversine_a_symmetric)

lemma cos_radians_nonneg: "\<bar>x\<bar> \<le> 90 \<Longrightarrow> 0 \<le> cos (radians x)"
proof -
  assume "\<bar>x\<bar> \<le> 90"
  then have x: "- 90 \<le> x" "x \<le> 90" by (simp_all add: abs_le_iff)
  have "(- 90) * (pi / 180) \<le> x * (pi / 180)" "x * (pi / 180) \<le> 90 * (pi / 180)"
    using x by (intro mult_right_mono; simp)+
  then have "- (pi / 2) \<le> radians x" "radians x \<le> pi / 2"
    by (simp_all add: radians_def)
  then show ?thesis by (rule cos_ge_zero)
qed

lemma haversine_a_eq:
  "1 - 2 * haversine_a exact_arith muni1 muni2 =
     sin (radians (lat muni1)) * sin (radians (lat muni2))
     + cos (radians (lat muni1)) * cos (radians (lat muni2)) * cos (radians (lon muni2 - lon muni1))"
proof -
  have h: "(sin (x / 2))\<^sup>2 = (1 - cos x) / 2" for x :: real
    using cos_double_sin[of "x / 2"] by simp
  have d: "radians (x - y) = radians x - radians y" for x y
    by (simp add: radians_def left_diff_distrib)
  have "haversine_a exact_arith muni1 muni2 =
        (1 - cos (radians (lat muni2 - lat muni1))) / 2
          + cos (radians (lat muni1)) * cos (radians (lat muni2)) * ((1 - cos (radians (lon muni2 - lon muni1))) / 2)"
    unfolding haversine_a_exact Let_def by (simp only: h)
  moreover have "1 - 2 * ((1 - A) / 2 + C * ((1 - B) / 2)) = A - C * (1 - B)" for A B C :: real
    by (simp add: field_simps)
  ultimately have "1 - 2 * haversine_a exact_arith muni1 muni2 =
        cos (radians (lat muni2 - lat muni1))
          - cos (radians (lat muni1)) * cos (radians (lat muni2)) * (1 - cos (radians (lon muni2 - lon muni1)))"
    by (simp only:)
  also have "\<dots> = sin (radians (lat muni1)) * sin (radians (lat muni2))
     + cos (radians (lat muni1)) * cos (radians (lat muni2)) * cos (radians (lon muni2 - lon muni1))"
    by (simp add: d[of "lat muni2" "lat muni1"] cos_diff algebra_simps)
  finally show ?thesis .
qed

lemma haversine_a_range:
  assumes "\<bar>lat muni1\<bar> \<le> 90" "\<bar>lat muni2\<bar> \<le> 90"
  shows "0 \<le> haversine_a exact_arith muni1 muni2" "haversine_a exact_arith muni1 muni2 \<le> 1"
proof -
  let ?c = "cos (radians (lat muni1)) * cos (radians (lat muni2))"
  have c: "0 \<le> ?c" using assms by (simp add: cos_radians_nonneg)
  show "0 \<le> haversine_a exact_arith muni1 muni2"
    unfolding haversine_a_exact Let_def
    by (intro add_nonneg_nonneg mult_nonneg_nonneg[OF c]) simp_all
  have "sin (radians (lat muni1)) * sin (radians (lat muni2)) + ?c * cos (radians (lon muni2 - lon muni1))
        \<ge> sin (radians (lat muni1)) * sin (radians (lat muni2)) + ?c * (- 1)"
    using c by (intro add_left_mono mult_left_mono) simp_all
  moreover have "sin (radians (lat muni1)) * sin (radians (lat muni2)) + ?c * (- 1)
        = - cos (radians (lat muni1) + radians (lat muni2))"
    by (simp add: cos_add)
  moreover have "- cos (radians (lat muni1) + radians (lat muni2)) \<ge> - 1" by simp
  ultimately have "1 - 2 * haversine_a exact_arith muni1 muni2 \<ge> - 1"
    unfolding haversine_a_eq by linarith
  then show "haversine_a exact_arith muni1 muni2 \<le> 1" by simp
qed

lemma atan2_sqrt_half_angle:
  assumes "0 \<le> a" "a \<le> 1"
  shows "2 * atan2 (sqrt a) (sqrt (1 - a)) = arccos (1 - 2 * a)"
proof -
  define t where "t = arcsin (sqrt a)"
  have sa: "0 \<le> sqrt a" "sqrt a \<le> 1" using assms by simp_all
  have m: "- 1 \<le> sqrt a" using sa by linarith
  have t: "0 \<le> t" "t \<le> pi / 2"
    using arcsin_ubound[OF m sa(2)] arcsin_lbound[OF m sa(2)] arcsin_le_arcsin[of 0 "sqrt a"] sa
    by (simp_all add: t_def)
  have st: "sin t = sqrt a" using sin_arcsin[OF m sa(2)] by (simp add: t_def)
  have ct: "cos t = sqrt (1 - a)"
    using cos_arcsin[OF m sa(2)] assms by (simp add: t_def)
  have "atan2 (sqrt a) (sqrt (1 - a)) = t"
  proof (cases "a = 1")
    case True
    then have "t = pi / 2" by (simp add: t_def)
    with True show ?thesis by (simp add: atan2_def)
  next
    case False
    then have pos: "0 < sqrt (1 - a)" using assms by simp
    then have "0 < cos t" by (simp add: ct)
    then have "t \<noteq> pi / 2" using cos_pi_half by (metis less_irrefl)
    then have lt: "t < pi / 2" using t by simp
    have "atan2 (sqrt a) (sqrt (1 - a)) = arctan (tan t)"
      using pos by (simp add: atan2_def tan_def st ct)
    also have "\<dots> = t" using t lt by (intro arctan_tan) simp_all
    finally show ?thesis .
  qed
  moreover have "arccos (1 - 2 * a) = 2 * t"
  proof -
    have "cos (2 * t) = 1 - 2 * a"
      using assms by (simp add: cos_double_sin st)
    moreover have "0 \<le> 2 * t" "2 * t \<le> pi" using t by simp_all
    ultimately show ?thesis using arccos_cos[of "2 * t"] by simp
  qed
  ultimately show ?thesis by simp
qed

lemma getDistance_valid:
  assumes "\<bar>lat muni1\<bar> \<le> 90" "\<bar>lat muni2\<bar> \<le> 90"
  shows "getDistanceBetweenMunicipalities exact_arith muni1 muni2 =
           Inr (haversine_miles (lat muni1) (lon muni1) (lat muni2) (lon muni2))"
    and "getDistanceBetweenMunicipalities exact_arith muni1 muni2 =
           Inr (6371 * central_angle (lat muni1) (lon muni1) (lat muni2) (lon muni2) / 1.609)"
proof -
  note r = haversine_a_range[OF assms]
  have a: "haversine_a exact_arith muni1 muni2 =
      (sin ((lat muni2 - lat muni1) * pi / 180 / 2))\<^sup>2
       + cos (lat muni1 * pi / 180) * cos (lat muni2 * pi / 180) * (sin ((lon muni2 - lon muni1) * pi / 180 / 2))\<^sup>2"
    by (simp add: haversine_a_exact radians_def)
  show "getDistanceBetweenMunicipalities exact_arith muni1 muni2 =
           Inr (haversine_miles (lat muni1) (lon muni1) (lat muni2) (lon muni2))"
    using r unfolding getDistance_exact haversine_miles_def Let_def a[symmetric]
    by (simp add: math_sqrt_exact)
  have "getDistanceBetweenMunicipalities exact_arith muni1 muni2 =
     Inr (6371 * (2 * atan2 (sqrt (haversine_a exact_arith muni1 muni2)) (sqrt (1 - haversine_a exact_arith muni1 muni2))) / 1.609)"
    using r unfolding getDistance_exact Let_def by (simp add: math_sqrt_exact)
  also have "\<dots> = Inr (6371 * arccos (1 - 2 * haversine_a exact_arith muni1 muni2) / 1.609)"
    by (simp only: atan2_sqrt_half_angle[OF r])
  also have "\<dots> = Inr (6371 * central_angle (lat muni1) (lon muni1) (lat muni2) (lon muni2) / 1.609)"
    unfolding haversine_a_eq central_angle_def by (simp add: radians_def)
  finally show "getDistanceBetweenMunicipalities exact_arith muni1 muni2 =
           Inr (6371 * central_angle (lat muni1) (lon muni1) (lat muni2) (lon muni2) / 1.609)" .
qed

section \<open>Properties of the heap operations\<close>

subsection \<open>The operations permute the list\<close>

lemma mset_update_swap:
  assumes "i < length xs" "j < length xs" "i \<noteq> j"
  shows "mset (xs[i := xs ! j, j := v]) = mset (xs[i := v])"
proof -
  let ?g = "xs[i := v]"
  have "mset (?g[i := ?g ! j, j := ?g ! i]) = mset ?g"
    using assms by (intro mset_swap) simp_all
  moreover have "?g[i := ?g ! j, j := ?g ! i] = xs[i := xs ! j, j := v]"
    using assms by simp
  ultimately show ?thesis by simp
qed

lemma parent_less: "0 < q \<Longrightarrow> (q - 1) div 2 < (q::nat)"
  by presburger

lemma siftdown_loop_mset:
  "pos < length heap \<Longrightarrow> siftdown_loop lt newitem heap startpos pos = Inr heap' \<Longrightarrow>
   mset heap' = mset (heap[pos := newitem])"
proof (induction lt newitem heap startpos pos rule: siftdown_loop.induct)
  case (1 lt newitem heap startpos pos)
  show ?case
  proof (cases "startpos < pos")
    case False
    with "1.prems" show ?thesis by (simp add: siftdown_loop.simps)
  next
    case True
    let ?pp = "(pos - 1) div 2"
    have pp: "?pp < pos" "?pp < length heap" using True "1.prems"(1) by auto
    show ?thesis
    proof (cases "lt newitem (heap ! ?pp)")
      case (Inl e)
      with True "1.prems" show ?thesis by (simp add: siftdown_loop.simps[of lt newitem heap])
    next
      case (Inr b)
      show ?thesis
      proof (cases b)
        case False
        with Inr True "1.prems" show ?thesis by (simp add: siftdown_loop.simps[of lt newitem heap])
      next
        case b: True
        have rec: "siftdown_loop lt newitem (heap[pos := heap ! ?pp]) startpos ?pp = Inr heap'"
          using "1.prems"(2) True Inr b by (simp add: siftdown_loop.simps[of lt newitem heap])
        have "mset heap' = mset (heap[pos := heap ! ?pp, ?pp := newitem])"
          using "1.IH"[OF True Inr b _ rec] pp by simp
        also have "\<dots> = mset (heap[pos := newitem])"
          using pp "1.prems"(1) by (intro mset_update_swap) auto
        finally show ?thesis .
      qed
    qed
  qed
qed

lemma siftup_loop_mset:
  "pos < length heap \<Longrightarrow> siftup_loop lt heap (length heap) pos = Inr (heap', leaf) \<Longrightarrow>
   leaf < length heap \<and> length heap' = length heap \<and> pos \<le> leaf \<and> length heap \<le> 2 * leaf + 1 \<and>
   (\<forall>x. mset (heap'[leaf := x]) = mset (heap[pos := x]))"
proof (induction lt heap "length heap" pos arbitrary: heap' leaf rule: siftup_loop.induct)
  case (1 lt heap pos)
  let ?l = "2 * pos + 1" and ?r = "2 * pos + 2"
  show ?case
  proof (cases "?l < length heap")
    case False
    with "1.prems" show ?thesis by (simp add: siftup_loop.simps[of lt heap])
  next
    case l: True
    have step: "mset (heap[pos := heap ! c, c := x]) = mset (heap[pos := x])"
      if "c < length heap" "c \<noteq> pos" for c x
      using that "1.prems"(1) by (intro mset_update_swap) auto
    show ?thesis
    proof (cases "?r < length heap")
      case False
      have rec: "siftup_loop lt (heap[pos := heap ! ?l]) (length heap) ?l = Inr (heap', leaf)"
        using "1.prems"(2) l False by (simp add: siftup_loop.simps[of lt heap])
      from "1.hyps"(3)[OF l False] rec l
      have "leaf < length heap \<and> length heap' = length heap \<and> ?l \<le> leaf \<and> length heap \<le> 2 * leaf + 1 \<and>
            (\<forall>x. mset (heap'[leaf := x]) = mset (heap[pos := heap ! ?l, ?l := x]))"
        by simp
      then show ?thesis using step[OF l] by simp
    next
      case r: True
      show ?thesis
      proof (cases "lt (heap ! ?l) (heap ! ?r)")
        case (Inl e)
        with "1.prems"(2) l r show ?thesis by (simp add: siftup_loop.simps[of lt heap])
      next
        case (Inr b)
        show ?thesis
        proof (cases b)
          case True
          have rec: "siftup_loop lt (heap[pos := heap ! ?l]) (length heap) ?l = Inr (heap', leaf)"
            using "1.prems"(2) l r Inr True by (simp add: siftup_loop.simps[of lt heap])
          from "1.hyps"(2)[OF l r Inr] True rec l
          have "leaf < length heap \<and> length heap' = length heap \<and> ?l \<le> leaf \<and> length heap \<le> 2 * leaf + 1 \<and>
                (\<forall>x. mset (heap'[leaf := x]) = mset (heap[pos := heap ! ?l, ?l := x]))"
            by simp
          then show ?thesis using step[OF l] by simp
        next
          case False
          have rec: "siftup_loop lt (heap[pos := heap ! ?r]) (length heap) ?r = Inr (heap', leaf)"
            using "1.prems"(2) l r Inr False by (simp add: siftup_loop.simps[of lt heap])
          from "1.hyps"(1)[OF l r Inr] False rec r
          have "leaf < length heap \<and> length heap' = length heap \<and> ?r \<le> leaf \<and> length heap \<le> 2 * leaf + 1 \<and>
                (\<forall>x. mset (heap'[leaf := x]) = mset (heap[pos := heap ! ?r, ?r := x]))"
            by simp
          then show ?thesis using step[OF r] by simp
        qed
      qed
    qed
  qed
qed

lemma heappush_mset:
  assumes "heappush lt heap item = Inr heap'"
  shows "mset heap' = add_mset item (mset heap)"
proof -
  have "siftdown_loop lt item (heap @ [item]) 0 (length heap) = Inr heap'"
    using assms by (simp add: heappush_def siftdown_def)
  then have "mset heap' = mset ((heap @ [item])[length heap := item])"
    by (intro siftdown_loop_mset) simp_all
  then show ?thesis by simp
qed

lemma siftup_mset:
  assumes "pos < length heap" "siftup lt heap pos = Inr heap'"
  shows "mset heap' = mset heap"
proof -
  obtain h1 leaf where l: "siftup_loop lt heap (length heap) pos = Inr (h1, leaf)"
    using assms(2) by (auto simp: siftup_def split: sum.splits)
  note m = siftup_loop_mset[OF assms(1) l]
  have "siftdown_loop lt (heap ! pos) (h1[leaf := heap ! pos]) pos leaf = Inr heap'"
    using assms(2) l m by (simp add: siftup_def siftdown_def)
  then have "mset heap' = mset (h1[leaf := heap ! pos, leaf := heap ! pos])"
    using m by (intro siftdown_loop_mset) simp_all
  also have "\<dots> = mset (heap[pos := heap ! pos])" using m by simp
  finally show ?thesis by simp
qed

lemma heappop_mset:
  assumes "heappop lt heap = Inr (x, heap')"
  shows "mset heap = add_mset x (mset heap')"
proof (cases "butlast heap = []")
  case True
  with assms have "heap \<noteq> []" "x = last heap" "heap' = []"
    by (auto simp: heappop_def split: if_splits)
  moreover from this True have "heap = [last heap]"
    by (metis append_butlast_last_id append_Nil)
  ultimately show ?thesis by (metis mset.simps(1) mset.simps(2))
next
  case False
  then obtain a t where t: "heap = a # t" "t \<noteq> []"
    by (cases heap) (auto split: if_splits)
  then obtain mid z where "t = mid @ [z]"
    using rev_exhaust by blast
  with t have h: "heap = a # mid @ [z]" by simp
  have s: "siftup lt (z # mid) 0 = Inr heap'" and x: "x = a"
    using assms by (auto simp: heappop_def h butlast_append split: sum.splits)
  have "mset heap' = mset (z # mid)" by (intro siftup_mset[OF _ s]) simp
  then show ?thesis by (simp add: h x)
qed

subsection \<open>The operations keep the heap order, and the root is a minimum\<close>

lemma heap_ordered_min:
  assumes "heap_ordered key h" "p < length h"
  shows "key (h ! 0) \<le> key (h ! p)"
  using assms(2)
proof (induction p rule: less_induct)
  case (less p)
  show ?case
  proof (cases "p = 0")
    case True then show ?thesis by simp
  next
    case False
    then have "(p - 1) div 2 < p" by auto
    moreover have "key (h ! ((p - 1) div 2)) \<le> key (h ! p)"
      using assms(1) False less.prems by (simp add: heap_ordered_def)
    ultimately show ?thesis using less.IH[of "(p - 1) div 2"] less.prems by force
  qed
qed

lemma siftdown_loop_heap:
  "orders_by lt key \<Longrightarrow> pos < length h \<Longrightarrow>
   (\<forall>p. 0 < p \<and> p < length h \<and> p \<noteq> pos \<longrightarrow>
        key ((h[pos := new]) ! ((p - 1) div 2)) \<le> key ((h[pos := new]) ! p)) \<Longrightarrow>
   (\<forall>c. 0 < c \<and> c < length h \<and> (c - 1) div 2 = pos \<and> 0 < pos \<longrightarrow>
        key (h ! ((pos - 1) div 2)) \<le> key (h ! c)) \<Longrightarrow>
   siftdown_loop lt new h 0 pos = Inr h' \<Longrightarrow> heap_ordered key h'"
proof (induction lt new h "0::nat" pos rule: siftdown_loop.induct)
  case (1 lt new h pos)
  note O = "1.prems"(1) and len = "1.prems"(2) and A = "1.prems"(3)[rule_format]
    and B = "1.prems"(4)[rule_format] and res = "1.prems"(5)
  let ?pp = "(pos - 1) div 2"
  show ?case
  proof (cases "0 < pos")
    case False
    then have h': "h' = h[pos := new]" using res by (simp add: siftdown_loop.simps[of lt new h])
    show ?thesis unfolding heap_ordered_def h'
      using A False by auto
  next
    case True
    then have pp: "?pp < pos" "?pp < length h" using len by auto
    show ?thesis
    proof (cases "lt new (h ! ?pp)")
      case (Inl e)
      with True res show ?thesis by (simp add: siftdown_loop.simps[of lt new h])
    next
      case (Inr b)
      show ?thesis
      proof (cases b)
        case False
        then have ge: "key (h ! ?pp) \<le> key new"
          using O[unfolded orders_by_def, rule_format, OF Inr] by simp
        have h': "h' = h[pos := new]"
          using res True Inr False by (simp add: siftdown_loop.simps[of lt new h])
        show ?thesis unfolding heap_ordered_def h'
        proof (intro allI impI)
          fix p assume p: "0 < p \<and> p < length (h[pos := new])"
          show "key (h[pos := new] ! ((p - 1) div 2)) \<le> key (h[pos := new] ! p)"
          proof (cases "p = pos")
            case True
            then show ?thesis using ge pp len by simp
          next
            case False
            then show ?thesis using A[of p] p by simp
          qed
        qed
      next
        case b: True
        then have lt: "key new < key (h ! ?pp)"
          using O[unfolded orders_by_def, rule_format, OF Inr] by simp
        have rec: "siftdown_loop lt new (h[pos := h ! ?pp]) 0 ?pp = Inr h'"
          using res True Inr b by (simp add: siftdown_loop.simps[of lt new h])
        let ?h2 = "h[pos := h ! ?pp]"
        have A': "\<forall>p. 0 < p \<and> p < length ?h2 \<and> p \<noteq> ?pp \<longrightarrow>
            key ((?h2[?pp := new]) ! ((p - 1) div 2)) \<le> key ((?h2[?pp := new]) ! p)"
        proof (intro allI impI)
          fix p assume p: "0 < p \<and> p < length ?h2 \<and> p \<noteq> ?pp"
          show "key ((?h2[?pp := new]) ! ((p - 1) div 2)) \<le> key ((?h2[?pp := new]) ! p)"
          proof (cases "p = pos")
            case True
            then show ?thesis using lt pp len by simp
          next
            case False
            have a: "key (h[pos := new] ! ((p - 1) div 2)) \<le> key (h ! p)"
              using A[of p] p False by simp
            consider "(p - 1) div 2 = pos" | "(p - 1) div 2 = ?pp" | "(p - 1) div 2 \<noteq> pos" "(p - 1) div 2 \<noteq> ?pp"
              by blast
            then show ?thesis
            proof cases
              case 1
              then show ?thesis using B[of p] p True False pp len by simp
            next
              case 2
              then show ?thesis using a lt p False pp len by simp
            next
              case 3
              then show ?thesis using a p False pp len by simp
            qed
          qed
        qed
        have B': "\<forall>c. 0 < c \<and> c < length ?h2 \<and> (c - 1) div 2 = ?pp \<and> 0 < ?pp \<longrightarrow>
            key (?h2 ! ((?pp - 1) div 2)) \<le> key (?h2 ! c)"
        proof (intro allI impI)
          fix c assume c: "0 < c \<and> c < length ?h2 \<and> (c - 1) div 2 = ?pp \<and> 0 < ?pp"
          then have ppp: "(?pp - 1) div 2 < ?pp" by (intro parent_less) simp
          have a: "key (h ! ((?pp - 1) div 2)) \<le> key (h ! ?pp)"
            using A[of ?pp] c pp ppp by simp
          show "key (?h2 ! ((?pp - 1) div 2)) \<le> key (?h2 ! c)"
          proof (cases "c = pos")
            case True
            then show ?thesis using a pp ppp len by simp
          next
            case False
            have "key (h ! ?pp) \<le> key (h ! c)" using A[of c] c False pp by simp
            then show ?thesis using a False pp ppp by simp
          qed
        qed
        show ?thesis
          using "1.hyps"[OF True Inr b O _ A' B' rec] pp by simp
      qed
    qed
  qed
qed

lemma siftup_loop_heap:
  "orders_by lt key \<Longrightarrow> pos < length h \<Longrightarrow>
   (\<forall>p. 0 < p \<and> p < length h \<and> p \<noteq> pos \<and> (p - 1) div 2 \<noteq> pos \<longrightarrow>
        key (h ! ((p - 1) div 2)) \<le> key (h ! p)) \<Longrightarrow>
   (\<forall>c. 0 < c \<and> c < length h \<and> (c - 1) div 2 = pos \<and> 0 < pos \<longrightarrow>
        key (h ! ((pos - 1) div 2)) \<le> key (h ! c)) \<Longrightarrow>
   siftup_loop lt h (length h) pos = Inr (h', leaf) \<Longrightarrow>
   (\<forall>p. 0 < p \<and> p < length h' \<and> p \<noteq> leaf \<and> (p - 1) div 2 \<noteq> leaf \<longrightarrow>
        key (h' ! ((p - 1) div 2)) \<le> key (h' ! p)) \<and>
   (\<forall>c. 0 < c \<and> c < length h' \<and> (c - 1) div 2 = leaf \<and> 0 < leaf \<longrightarrow>
        key (h' ! ((leaf - 1) div 2)) \<le> key (h' ! c))"
proof (induction lt h "length h" pos arbitrary: h' leaf rule: siftup_loop.induct)
  case (1 lt h pos)
  note O = "1.prems"(1) and len = "1.prems"(2) and C = "1.prems"(3)[rule_format]
    and D = "1.prems"(4)[rule_format] and res = "1.prems"(5)
  let ?l = "2 * pos + 1" and ?r = "2 * pos + 2"
  have step: "(\<forall>p. 0 < p \<and> p < length (h[pos := h ! c]) \<and> p \<noteq> c \<and> (p - 1) div 2 \<noteq> c \<longrightarrow>
        key (h[pos := h ! c] ! ((p - 1) div 2)) \<le> key (h[pos := h ! c] ! p)) \<and>
     (\<forall>d. 0 < d \<and> d < length (h[pos := h ! c]) \<and> (d - 1) div 2 = c \<and> 0 < c \<longrightarrow>
        key (h[pos := h ! c] ! ((c - 1) div 2)) \<le> key (h[pos := h ! c] ! d))"
    if c: "c < length h" "(c - 1) div 2 = pos" "0 < c"
      and sib: "\<And>s. s < length h \<Longrightarrow> 0 < s \<Longrightarrow> (s - 1) div 2 = pos \<Longrightarrow> key (h ! c) \<le> key (h ! s)"
    for c
  proof (intro conjI allI impI)
    fix p assume p: "0 < p \<and> p < length (h[pos := h ! c]) \<and> p \<noteq> c \<and> (p - 1) div 2 \<noteq> c"
    have cpos: "pos < c" using c by auto
    show "key (h[pos := h ! c] ! ((p - 1) div 2)) \<le> key (h[pos := h ! c] ! p)"
    proof (cases "p = pos")
      case True
      then have "(p - 1) div 2 \<noteq> pos" using p by auto
      then show ?thesis using True D[of c] c p len by simp
    next
      case False
      show ?thesis
      proof (cases "(p - 1) div 2 = pos")
        case True
        then show ?thesis using sib[of p] p False len by simp
      next
        case np: False
        then show ?thesis using C[of p] p False by simp
      qed
    qed
  next
    fix d assume d: "0 < d \<and> d < length (h[pos := h ! c]) \<and> (d - 1) div 2 = c \<and> 0 < c"
    then have "c < d" by auto
    with c have "pos < d" "d \<noteq> pos" "c \<noteq> pos" by auto
    then show "key (h[pos := h ! c] ! ((c - 1) div 2)) \<le> key (h[pos := h ! c] ! d)"
      using C[of d] d c len by simp
  qed
  show ?case
  proof (cases "?l < length h")
    case False
    then have "h' = h" "leaf = pos" using res by (simp_all add: siftup_loop.simps[of lt h])
    then show ?thesis using "1.prems"(3,4) by simp
  next
    case l: True
    have kids: "s = ?l \<or> s = ?r" if "0 < s" "(s - 1) div 2 = pos" for s
      using that by presburger
    show ?thesis
    proof (cases "?r < length h")
      case False
      have rec: "siftup_loop lt (h[pos := h ! ?l]) (length h) ?l = Inr (h', leaf)"
        using res l False by (simp add: siftup_loop.simps[of lt h])
      have "key (h ! ?l) \<le> key (h ! s)" if "s < length h" "0 < s" "(s - 1) div 2 = pos" for s
        using kids[OF that(2,3)] that(1) False by auto
      then have st: "(\<forall>p. 0 < p \<and> p < length (h[pos := h ! ?l]) \<and> p \<noteq> ?l \<and> (p - 1) div 2 \<noteq> ?l \<longrightarrow>
        key (h[pos := h ! ?l] ! ((p - 1) div 2)) \<le> key (h[pos := h ! ?l] ! p)) \<and>
        (\<forall>d. 0 < d \<and> d < length (h[pos := h ! ?l]) \<and> (d - 1) div 2 = ?l \<and> 0 < ?l \<longrightarrow>
        key (h[pos := h ! ?l] ! ((?l - 1) div 2)) \<le> key (h[pos := h ! ?l] ! d))"
        using l by (intro step) auto
      have len2: "length h = length (h[pos := h ! ?l])" by simp
      have l2: "?l < length (h[pos := h ! ?l])" using l by simp
      show ?thesis
        by (rule "1.hyps"(3)[OF l False len2 O l2 conjunct1[OF st] conjunct2[OF st]])
           (use rec in simp)
    next
      case r: True
      show ?thesis
      proof (cases "lt (h ! ?l) (h ! ?r)")
        case (Inl e)
        with res l r show ?thesis by (simp add: siftup_loop.simps[of lt h])
      next
        case (Inr b)
        show ?thesis
        proof (cases b)
          case True
          then have k: "key (h ! ?l) < key (h ! ?r)"
            using O[unfolded orders_by_def, rule_format, OF Inr] by simp
          have rec: "siftup_loop lt (h[pos := h ! ?l]) (length h) ?l = Inr (h', leaf)"
            using res l r Inr True by (simp add: siftup_loop.simps[of lt h])
          have "key (h ! ?l) \<le> key (h ! s)" if "s < length h" "0 < s" "(s - 1) div 2 = pos" for s
            using kids[OF that(2,3)] k by auto
          then have st: "(\<forall>p. 0 < p \<and> p < length (h[pos := h ! ?l]) \<and> p \<noteq> ?l \<and> (p - 1) div 2 \<noteq> ?l \<longrightarrow>
            key (h[pos := h ! ?l] ! ((p - 1) div 2)) \<le> key (h[pos := h ! ?l] ! p)) \<and>
            (\<forall>d. 0 < d \<and> d < length (h[pos := h ! ?l]) \<and> (d - 1) div 2 = ?l \<and> 0 < ?l \<longrightarrow>
            key (h[pos := h ! ?l] ! ((?l - 1) div 2)) \<le> key (h[pos := h ! ?l] ! d))"
            using l by (intro step) auto
          have len2: "length h = length (h[pos := h ! ?l])" by simp
          have l2: "?l < length (h[pos := h ! ?l])" using l by simp
          have nb: "\<not> \<not> b" using True by simp
          show ?thesis
            by (rule "1.hyps"(2)[OF l r Inr nb len2 O l2 conjunct1[OF st] conjunct2[OF st]])
               (use rec in simp)
        next
          case False
          then have k: "key (h ! ?r) \<le> key (h ! ?l)"
            using O[unfolded orders_by_def, rule_format, OF Inr] by simp
          have rec: "siftup_loop lt (h[pos := h ! ?r]) (length h) ?r = Inr (h', leaf)"
            using res l r Inr False by (simp add: siftup_loop.simps[of lt h])
          have "key (h ! ?r) \<le> key (h ! s)" if "s < length h" "0 < s" "(s - 1) div 2 = pos" for s
            using kids[OF that(2,3)] k by auto
          then have st: "(\<forall>p. 0 < p \<and> p < length (h[pos := h ! ?r]) \<and> p \<noteq> ?r \<and> (p - 1) div 2 \<noteq> ?r \<longrightarrow>
            key (h[pos := h ! ?r] ! ((p - 1) div 2)) \<le> key (h[pos := h ! ?r] ! p)) \<and>
            (\<forall>d. 0 < d \<and> d < length (h[pos := h ! ?r]) \<and> (d - 1) div 2 = ?r \<and> 0 < ?r \<longrightarrow>
            key (h[pos := h ! ?r] ! ((?r - 1) div 2)) \<le> key (h[pos := h ! ?r] ! d))"
            using r by (intro step) auto
          have len2: "length h = length (h[pos := h ! ?r])" by simp
          have r2: "?r < length (h[pos := h ! ?r])" using r by simp
          show ?thesis
            by (rule "1.hyps"(1)[OF l r Inr False len2 O r2 conjunct1[OF st] conjunct2[OF st]])
               (use rec in simp)
        qed
      qed
    qed
  qed
qed

lemma heappush_heap:
  assumes "orders_by lt key" "heap_ordered key h" "heappush lt h x = Inr h'"
  shows "heap_ordered key h'"
proof -
  have res: "siftdown_loop lt x (h @ [x]) 0 (length h) = Inr h'"
    using assms(3) by (simp add: heappush_def siftdown_def)
  have A: "\<forall>p. 0 < p \<and> p < length (h @ [x]) \<and> p \<noteq> length h \<longrightarrow>
      key (((h @ [x])[length h := x]) ! ((p - 1) div 2)) \<le> key (((h @ [x])[length h := x]) ! p)"
  proof (intro allI impI)
    fix p assume p: "0 < p \<and> p < length (h @ [x]) \<and> p \<noteq> length h"
    then have "p < length h" by simp
    moreover from this p have "(p - 1) div 2 < length h" using parent_less[of p] by simp
    ultimately show "key (((h @ [x])[length h := x]) ! ((p - 1) div 2)) \<le> key (((h @ [x])[length h := x]) ! p)"
      using assms(2) p by (simp add: nth_append heap_ordered_def)
  qed
  have B: "\<forall>c. 0 < c \<and> c < length (h @ [x]) \<and> (c - 1) div 2 = length h \<and> 0 < length h \<longrightarrow>
      key ((h @ [x]) ! ((length h - 1) div 2)) \<le> key ((h @ [x]) ! c)"
  proof (intro allI impI)
    fix c assume c: "0 < c \<and> c < length (h @ [x]) \<and> (c - 1) div 2 = length h \<and> 0 < length h"
    then have "length h < c" using parent_less[of c] by simp
    with c show "key ((h @ [x]) ! ((length h - 1) div 2)) \<le> key ((h @ [x]) ! c)" by simp
  qed
  show ?thesis
    by (rule siftdown_loop_heap[OF assms(1) _ A B res]) simp
qed

lemma siftup_heap:
  assumes "orders_by lt key" "g \<noteq> []"
    and C: "\<forall>p. 0 < p \<and> p < length g \<and> (p - 1) div 2 \<noteq> 0 \<longrightarrow> key (g ! ((p - 1) div 2)) \<le> key (g ! p)"
    and res: "siftup lt g 0 = Inr h'"
  shows "heap_ordered key h'"
proof -
  have g0: "0 < length g" using assms(2) by simp
  obtain h1 leaf where l: "siftup_loop lt g (length g) 0 = Inr (h1, leaf)"
    using res by (auto simp: siftup_def split: sum.splits)
  note m = siftup_loop_mset[OF g0 l]
  have C0: "\<forall>p. 0 < p \<and> p < length g \<and> p \<noteq> 0 \<and> (p - 1) div 2 \<noteq> 0 \<longrightarrow> key (g ! ((p - 1) div 2)) \<le> key (g ! p)"
    using C by simp
  have D0: "\<forall>c. 0 < c \<and> c < length g \<and> (c - 1) div 2 = 0 \<and> 0 < (0::nat) \<longrightarrow> key (g ! ((0 - 1) div 2)) \<le> key (g ! c)"
    by simp
  note s = siftup_loop_heap[OF assms(1) g0 C0 D0 l]
  let ?x = "g ! 0"
  have sd: "siftdown_loop lt ?x (h1[leaf := ?x]) 0 leaf = Inr h'"
    using res l m by (simp add: siftup_def siftdown_def)
  have A: "\<forall>p. 0 < p \<and> p < length (h1[leaf := ?x]) \<and> p \<noteq> leaf \<longrightarrow>
      key ((h1[leaf := ?x, leaf := ?x]) ! ((p - 1) div 2)) \<le> key ((h1[leaf := ?x, leaf := ?x]) ! p)"
  proof (intro allI impI)
    fix p assume p: "0 < p \<and> p < length (h1[leaf := ?x]) \<and> p \<noteq> leaf"
    have "(p - 1) div 2 \<noteq> leaf"
    proof
      assume "(p - 1) div 2 = leaf"
      then have "2 * leaf + 1 \<le> p" using p by presburger
      then show False using m p by simp
    qed
    then show "key ((h1[leaf := ?x, leaf := ?x]) ! ((p - 1) div 2)) \<le> key ((h1[leaf := ?x, leaf := ?x]) ! p)"
      using s[THEN conjunct1, rule_format, of p] p by simp
  qed
  have B: "\<forall>c. 0 < c \<and> c < length (h1[leaf := ?x]) \<and> (c - 1) div 2 = leaf \<and> 0 < leaf \<longrightarrow>
      key ((h1[leaf := ?x]) ! ((leaf - 1) div 2)) \<le> key ((h1[leaf := ?x]) ! c)"
  proof (intro allI impI)
    fix c assume c: "0 < c \<and> c < length (h1[leaf := ?x]) \<and> (c - 1) div 2 = leaf \<and> 0 < leaf"
    then have "2 * leaf + 1 \<le> c" by presburger
    then have False using m c by simp
    then show "key ((h1[leaf := ?x]) ! ((leaf - 1) div 2)) \<le> key ((h1[leaf := ?x]) ! c)" ..
  qed
  show ?thesis
    by (rule siftdown_loop_heap[OF assms(1) _ A B sd]) (use m in simp)
qed

lemma heappop_heap:
  assumes "orders_by lt key" "heap_ordered key h" "heappop lt h = Inr (x, h')"
  shows "heap_ordered key h'" and "\<forall>y\<in>set h. key x \<le> key y"
proof -
  have ne: "h \<noteq> []" using assms(3) by (auto simp: heappop_def)
  have x: "x = h ! 0"
    using assms(3) ne by (cases h) (auto simp: heappop_def split: if_splits sum.splits)
  show "\<forall>y\<in>set h. key x \<le> key y"
    using heap_ordered_min[OF assms(2)] by (auto simp: x in_set_conv_nth)
  show "heap_ordered key h'"
  proof (cases "butlast h = []")
    case True
    with assms(3) ne have "h' = []" by (auto simp: heappop_def)
    then show ?thesis by (simp add: heap_ordered_def)
  next
    case False
    then obtain a t where t: "h = a # t" "t \<noteq> []"
      by (cases h) (auto split: if_splits)
    then obtain mid z where "t = mid @ [z]"
      using rev_exhaust by blast
    with t have h: "h = a # mid @ [z]" by simp
    have s: "siftup lt (z # mid) 0 = Inr h'"
      using assms(3) by (auto simp: heappop_def h butlast_append split: sum.splits)
    have C: "\<forall>p. 0 < p \<and> p < length (z # mid) \<and> (p - 1) div 2 \<noteq> 0 \<longrightarrow>
        key ((z # mid) ! ((p - 1) div 2)) \<le> key ((z # mid) ! p)"
    proof (intro allI impI)
      fix p assume p: "0 < p \<and> p < length (z # mid) \<and> (p - 1) div 2 \<noteq> 0"
      then have q: "(p - 1) div 2 < p" using parent_less[of p] by simp
      have eq: "h ! j = (z # mid) ! j" if "0 < j" "j < Suc (length mid)" for j
        using that by (cases j) (auto simp: h nth_append)
      have "p < length h" using p by (simp add: h)
      then have "key (h ! ((p - 1) div 2)) \<le> key (h ! p)"
        using assms(2) p unfolding heap_ordered_def by blast
      moreover have "h ! p = (z # mid) ! p" using p by (intro eq) simp_all
      moreover have "h ! ((p - 1) div 2) = (z # mid) ! ((p - 1) div 2)"
        using p q by (intro eq) simp_all
      ultimately show "key ((z # mid) ! ((p - 1) div 2)) \<le> key ((z # mid) ! p)" by simp
    qed
    show ?thesis by (rule siftup_heap[OF assms(1) _ C s]) simp
  qed
qed

subsection \<open>The operations return when the comparison does\<close>

lemma comparable_mono: "S \<subseteq> T \<Longrightarrow> comparable lt T \<Longrightarrow> comparable lt S"
  unfolding comparable_def by blast

lemma siftdown_loop_ok:
  "comparable lt (insert new (set h)) \<Longrightarrow> pos < length h \<Longrightarrow>
   \<exists>h'. siftdown_loop lt new h startpos pos = Inr h'"
proof (induction lt new h startpos pos rule: siftdown_loop.induct)
  case (1 lt new h startpos pos)
  let ?pp = "(pos - 1) div 2"
  show ?case
  proof (cases "startpos < pos")
    case False
    then show ?thesis by (simp add: siftdown_loop.simps[of lt new h])
  next
    case True
    then have pp: "?pp < pos" "?pp < length h" using "1.prems"(2) by auto
    then obtain b where b: "lt new (h ! ?pp) = Inr b"
      using "1.prems"(1) unfolding comparable_def by (meson insertI1 insertI2 nth_mem)
    show ?thesis
    proof (cases b)
      case False
      with True b show ?thesis by (simp add: siftdown_loop.simps[of lt new h])
    next
      case tb: True
      have "set (h[pos := h ! ?pp]) \<subseteq> set h"
        using pp by (intro set_update_subsetI) auto
      then have "comparable lt (insert new (set (h[pos := h ! ?pp])))"
        using "1.prems"(1) by (intro comparable_mono[OF _ "1.prems"(1)]) auto
      from "1.IH"[OF True b tb this] pp "1.prems"(2)
      show ?thesis using True b tb by (simp add: siftdown_loop.simps[of lt new h])
    qed
  qed
qed

lemma siftup_loop_ok:
  "comparable lt (set h) \<Longrightarrow> pos < length h \<Longrightarrow>
   \<exists>h' leaf. siftup_loop lt h (length h) pos = Inr (h', leaf) \<and> set h' \<subseteq> set h"
proof (induction lt h "length h" pos rule: siftup_loop.induct)
  case (1 lt h pos)
  let ?l = "2 * pos + 1" and ?r = "2 * pos + 2"
  have sub: "set (h[pos := h ! c]) \<subseteq> set h" if "c < length h" for c
    using that by (intro set_update_subsetI) auto
  have cmp: "comparable lt (set (h[pos := h ! c]))" if "c < length h" for c
    using comparable_mono[OF sub[OF that] "1.prems"(1)] .
  show ?case
  proof (cases "?l < length h")
    case False
    then show ?thesis by (simp add: siftup_loop.simps[of lt h])
  next
    case l: True
    have len2: "length h = length (h[pos := h ! c])" for c by simp
    show ?thesis
    proof (cases "?r < length h")
      case False
      have l2: "?l < length (h[pos := h ! ?l])" using l by simp
      from "1.hyps"(3)[OF l False len2 cmp[OF l] l2] sub[OF l]
      show ?thesis using l False by (auto simp: siftup_loop.simps[of lt h])
    next
      case r: True
      obtain b where b: "lt (h ! ?l) (h ! ?r) = Inr b"
        using "1.prems"(1) l r unfolding comparable_def by (meson nth_mem)
      show ?thesis
      proof (cases b)
        case True
        then have nb: "\<not> \<not> b" by simp
        have l2: "?l < length (h[pos := h ! ?l])" using l by simp
        from "1.hyps"(2)[OF l r b nb len2 cmp[OF l] l2] sub[OF l]
        show ?thesis using l r b True by (auto simp: siftup_loop.simps[of lt h])
      next
        case False
        have r2: "?r < length (h[pos := h ! ?r])" using r by simp
        from "1.hyps"(1)[OF l r b False len2 cmp[OF r] r2] sub[OF r]
        show ?thesis using l r b False by (auto simp: siftup_loop.simps[of lt h])
      qed
    qed
  qed
qed

lemma heappush_ok:
  assumes "comparable lt (insert x (set h))"
  shows "\<exists>h'. heappush lt h x = Inr h'"
proof -
  have "comparable lt (insert x (set (h @ [x])))" using assms by simp
  then show ?thesis
    unfolding heappush_def siftdown_def by (simp add: siftdown_loop_ok)
qed

lemma heappop_ok:
  assumes "comparable lt (set h)" "h \<noteq> []"
  shows "\<exists>x h'. heappop lt h = Inr (x, h')"
proof (cases "butlast h = []")
  case True
  then show ?thesis using assms(2) by (simp add: heappop_def)
next
  case False
  let ?g = "(butlast h)[0 := last h]"
  have g0: "0 < length ?g" using False by (metis length_greater_0_conv length_list_update)
  have "set ?g \<subseteq> set h"
    using assms(2) by (intro set_update_subsetI) (auto dest: in_set_butlastD)
  then have cg: "comparable lt (set ?g)" using assms(1) comparable_mono by blast
  obtain h1 leaf where l: "siftup_loop lt ?g (length ?g) 0 = Inr (h1, leaf)" and sub: "set h1 \<subseteq> set ?g"
    using siftup_loop_ok[OF cg g0] by blast
  note m = siftup_loop_mset[OF g0 l]
  have gin: "?g ! 0 \<in> set ?g" using g0 by (rule nth_mem)
  have "set (h1[leaf := ?g ! 0]) \<subseteq> set ?g"
    using sub gin by (intro set_update_subsetI)
  then have "insert (?g ! 0) (set (h1[leaf := ?g ! 0])) \<subseteq> set ?g"
    using gin by blast
  then have "comparable lt (insert (?g ! 0) (set (h1[leaf := ?g ! 0])))"
    by (rule comparable_mono[OF _ cg])
  then obtain h' where "siftdown_loop lt (?g ! 0) (h1[leaf := ?g ! 0]) 0 leaf = Inr h'"
    using siftdown_loop_ok[of lt "?g ! 0" "h1[leaf := ?g ! 0]" leaf 0] m by auto
  then have "siftup lt ?g 0 = Inr h'"
    using l m by (simp add: siftup_def siftdown_def)
  then show ?thesis using False assms(2) by (simp add: heappop_def)
qed

section \<open>Invariants of the assembler\<close>

lemma same_entities_refl [simp]: "same_entities ms ms"
  by (simp add: same_entities_def)

lemma same_entities_trans: "same_entities a b \<Longrightarrow> same_entities b c \<Longrightarrow> same_entities a c"
  by (simp add: same_entities_def)

lemma same_entities_codes: "same_entities ms ms' \<Longrightarrow> map code ms' = map code ms"
  by (auto simp: same_entities_def intro: nth_equalityI)

lemma connectPair_Inr:
  assumes "connectPair ms i k d = Inr ms'" "i < length ms" "k < length ms" "i \<noteq> k"
  obtains a b where "neighbors (ms ! i) = Some a" "neighbors (ms ! k) = Some b"
    "ms' = ms[i := (ms ! i)\<lparr>neighbors := Some (insert (code (ms ! k)) a),
                   edges := edges (ms ! i) @ [\<lparr>fromMuniCode = code (ms ! i), toMuniCode = code (ms ! k), distance = d\<rparr>]\<rparr>,
             k := (ms ! k)\<lparr>neighbors := Some (insert (code (ms ! i)) b),
                   edges := edges (ms ! k) @ [\<lparr>fromMuniCode = code (ms ! k), toMuniCode = code (ms ! i), distance = d\<rparr>]\<rparr>]"
  using assms
  by (auto simp: connectPair_def appendEdge_def Let_def split: option.splits sum.splits)

lemma connectPair_ok:
  assumes "neighbors (ms ! i) = Some a" "neighbors (ms ! k) = Some b" "i < length ms" "k < length ms" "i \<noteq> k"
  shows "\<exists>ms'. connectPair ms i k d = Inr ms'"
  using assms by (simp add: connectPair_def appendEdge_def Let_def)

lemma connectPair_facts:
  assumes c: "connectPair ms i k d = Inr ms'" and i: "i < length ms" and k: "k < length ms" and ik: "i \<noteq> k"
  shows "length ms' = length ms"
    and "\<And>j. j < length ms \<Longrightarrow> code (ms' ! j) = code (ms ! j)"
    and "\<And>j. j < length ms \<Longrightarrow> lat (ms' ! j) = lat (ms ! j)"
    and "\<And>j. j < length ms \<Longrightarrow> lon (ms' ! j) = lon (ms ! j)"
    and "\<And>j. j < length ms \<Longrightarrow> j \<noteq> i \<Longrightarrow> j \<noteq> k \<Longrightarrow> ms' ! j = ms ! j"
    and "edges (ms' ! i) = edges (ms ! i) @ [\<lparr>fromMuniCode = code (ms ! i), toMuniCode = code (ms ! k), distance = d\<rparr>]"
    and "edges (ms' ! k) = edges (ms ! k) @ [\<lparr>fromMuniCode = code (ms ! k), toMuniCode = code (ms ! i), distance = d\<rparr>]"
    and "\<And>a. neighbors (ms ! i) = Some a \<Longrightarrow> neighbors (ms' ! i) = Some (insert (code (ms ! k)) a)"
    and "\<And>b. neighbors (ms ! k) = Some b \<Longrightarrow> neighbors (ms' ! k) = Some (insert (code (ms ! i)) b)"
proof -
  from connectPair_Inr[OF c i k ik] obtain a b where
    a: "neighbors (ms ! i) = Some a" and b: "neighbors (ms ! k) = Some b" and
    ms': "ms' = ms[i := (ms ! i)\<lparr>neighbors := Some (insert (code (ms ! k)) a),
                   edges := edges (ms ! i) @ [\<lparr>fromMuniCode = code (ms ! i), toMuniCode = code (ms ! k), distance = d\<rparr>]\<rparr>,
             k := (ms ! k)\<lparr>neighbors := Some (insert (code (ms ! i)) b),
                   edges := edges (ms ! k) @ [\<lparr>fromMuniCode = code (ms ! k), toMuniCode = code (ms ! i), distance = d\<rparr>]\<rparr>]"
    by blast
  show "length ms' = length ms" by (simp add: ms')
  show "code (ms' ! j) = code (ms ! j)" if "j < length ms" for j
    using that i k ik by (simp add: ms' nth_list_update)
  show "lat (ms' ! j) = lat (ms ! j)" if "j < length ms" for j
    using that i k ik by (simp add: ms' nth_list_update)
  show "lon (ms' ! j) = lon (ms ! j)" if "j < length ms" for j
    using that i k ik by (simp add: ms' nth_list_update)
  show "ms' ! j = ms ! j" if "j < length ms" "j \<noteq> i" "j \<noteq> k" for j
    using that by (simp add: ms')
  show "edges (ms' ! i) = edges (ms ! i) @ [\<lparr>fromMuniCode = code (ms ! i), toMuniCode = code (ms ! k), distance = d\<rparr>]"
    using i k ik by (simp add: ms')
  show "edges (ms' ! k) = edges (ms ! k) @ [\<lparr>fromMuniCode = code (ms ! k), toMuniCode = code (ms ! i), distance = d\<rparr>]"
    using i k ik by (simp add: ms')
  show "neighbors (ms' ! i) = Some (insert (code (ms ! k)) a')" if "neighbors (ms ! i) = Some a'" for a'
    using that a i k ik by (simp add: ms')
  show "neighbors (ms' ! k) = Some (insert (code (ms ! i)) b')" if "neighbors (ms ! k) = Some b'" for b'
    using that b i k ik by (simp add: ms')
qed

lemma connectPair_same_entities:
  assumes "connectPair ms i k d = Inr ms'" "i < length ms" "k < length ms" "i \<noteq> k"
  shows "same_entities ms ms'"
  using connectPair_facts(1-4)[OF assms] by (simp add: same_entities_def)


lemma distinct_codes_nth:
  "distinct (map code ms) \<Longrightarrow> i < length ms \<Longrightarrow> j < length ms \<Longrightarrow> code (ms ! i) = code (ms ! j) \<Longrightarrow> i = j"
  by (metis distinct_conv_nth length_map nth_map)

lemma connectPair_inv:
  assumes c: "connectPair ms i k d = Inr ms'" and i: "i < length ms" and k: "k < length ms" and ik: "i \<noteq> k"
    and dc: "distinct (map code ms)"
    and nk: "neighbors_ok ms" and me: "mutual_edges ms" and se: "simple_edges ms"
    and fresh: "code (ms ! k) \<notin> toMuniCode ` set (edges (ms ! i))"
  shows "neighbors_ok ms'" and "mutual_edges ms'" and "simple_edges ms'"
proof -
  note f = connectPair_facts[OF c i k ik]
  let ?eik = "\<lparr>fromMuniCode = code (ms ! i), toMuniCode = code (ms ! k), distance = d\<rparr>"
  let ?eki = "\<lparr>fromMuniCode = code (ms ! k), toMuniCode = code (ms ! i), distance = d\<rparr>"
  have E: "edges (ms' ! j) = edges (ms ! j) @ (if j = i then [?eik] else if j = k then [?eki] else [])"
    if "j < length ms" for j
    using that f(5)[of j] f(6) f(7) ik by auto
  have nbi: "neighbors (ms ! j) = Some (toMuniCode ` set (edges (ms ! j)))" if "j < length ms" for j
    using nk that by (simp add: neighbors_ok_def)
  show "neighbors_ok ms'"
    unfolding neighbors_ok_def
  proof (intro allI impI)
    fix j assume "j < length ms'"
    then have j: "j < length ms" by (simp add: f(1))
    consider "j = i" | "j = k" | "j \<noteq> i" "j \<noteq> k" by blast
    then show "neighbors (ms' ! j) = Some (toMuniCode ` set (edges (ms' ! j)))"
    proof cases
      case 1
      then show ?thesis using f(8)[OF nbi[OF i]] E[OF i] by simp
    next
      case 2
      then show ?thesis using f(9)[OF nbi[OF k]] E[OF k] ik by simp
    next
      case 3
      then show ?thesis using f(5)[OF j] nbi[OF j] by simp
    qed
  qed
  have fresh2: "code (ms ! i) \<notin> toMuniCode ` set (edges (ms ! k))"
  proof
    assume "code (ms ! i) \<in> toMuniCode ` set (edges (ms ! k))"
    then obtain e where e: "e \<in> set (edges (ms ! k))" "toMuniCode e = code (ms ! i)" by auto
    with me k obtain j where j: "j < length ms" "code (ms ! j) = toMuniCode e"
      "\<lparr>fromMuniCode = code (ms ! j), toMuniCode = code (ms ! k), distance = distance e\<rparr> \<in> set (edges (ms ! j))"
      unfolding mutual_edges_def by blast
    have "j = i" using distinct_codes_nth[OF dc j(1) i] j(2) e(2) by simp
    with j(3) have "code (ms ! k) \<in> toMuniCode ` set (edges (ms ! i))" by force
    with fresh show False by simp
  qed
  show "simple_edges ms'"
    unfolding simple_edges_def
  proof (intro allI impI)
    fix j assume "j < length ms'"
    then have j: "j < length ms" by (simp add: f(1))
    have "distinct (map toMuniCode (edges (ms ! j)))" using se j by (simp add: simple_edges_def)
    then show "distinct (map toMuniCode (edges (ms' ! j)))"
      using E[OF j] fresh fresh2 by auto
  qed
  show "mutual_edges ms'"
    unfolding mutual_edges_def
  proof (intro allI impI ballI)
    fix j e assume "j < length ms'" and e: "e \<in> set (edges (ms' ! j))"
    then have j: "j < length ms" by (simp add: f(1))
    have sub: "set (edges (ms ! l)) \<subseteq> set (edges (ms' ! l))" if "l < length ms" for l
      using E[OF that] by auto
    consider "e \<in> set (edges (ms ! j))" | "j = i" "e = ?eik" | "j = k" "e = ?eki"
      using e E[OF j] by (auto split: if_splits)
    then show "fromMuniCode e = code (ms' ! j) \<and>
        (\<exists>l<length ms'. l \<noteq> j \<and> code (ms' ! l) = toMuniCode e \<and>
           \<lparr>fromMuniCode = code (ms' ! l), toMuniCode = code (ms' ! j), distance = distance e\<rparr>
             \<in> set (edges (ms' ! l)))"
    proof cases
      case 1
      with me j obtain l where l: "fromMuniCode e = code (ms ! j)" "l < length ms" "l \<noteq> j"
        "code (ms ! l) = toMuniCode e"
        "\<lparr>fromMuniCode = code (ms ! l), toMuniCode = code (ms ! j), distance = distance e\<rparr> \<in> set (edges (ms ! l))"
        unfolding mutual_edges_def by blast
      then show ?thesis using sub[OF l(2)] f(1) f(2)[OF j] f(2)[OF l(2)]
        by (intro conjI exI[of _ l]) auto
    next
      case 2
      then show ?thesis using E[OF k] ik i k f(1) f(2)[OF i] f(2)[OF k]
        by (intro conjI exI[of _ k]) auto
    next
      case 3
      then show ?thesis using E[OF i] ik i k f(1) f(2)[OF i] f(2)[OF k]
        by (intro conjI exI[of _ i]) auto
    qed
  qed
qed


lemma neighbors_ok_has_neighbors: "neighbors_ok ms \<Longrightarrow> has_neighbors ms"
  by (auto simp: neighbors_ok_def has_neighbors_def in_set_conv_nth)

lemma connectPair_has_neighbors:
  assumes "connectPair ms i k d = Inr ms'" "i < length ms" "k < length ms" "i \<noteq> k" "has_neighbors ms"
  shows "has_neighbors ms'"
proof -
  from connectPair_Inr[OF assms(1-4)] obtain a b where
    ms': "ms' = ms[i := (ms ! i)\<lparr>neighbors := Some (insert (code (ms ! k)) a),
                   edges := edges (ms ! i) @ [\<lparr>fromMuniCode = code (ms ! i), toMuniCode = code (ms ! k), distance = d\<rparr>]\<rparr>,
             k := (ms ! k)\<lparr>neighbors := Some (insert (code (ms ! i)) b),
                   edges := edges (ms ! k) @ [\<lparr>fromMuniCode = code (ms ! k), toMuniCode = code (ms ! i), distance = d\<rparr>]\<rparr>]"
    by blast
  show ?thesis
    unfolding has_neighbors_def ms'
    using assms(5) by (auto simp: has_neighbors_def dest!: set_update_subset_insert[THEN subsetD])
qed

lemma connectAll_ok:
  "has_neighbors ms \<Longrightarrow> i < length ms \<Longrightarrow> \<forall>x\<in>set acc. snd x < length ms \<and> snd x \<noteq> i \<Longrightarrow>
   \<exists>ms'. connectAll ms i acc = Inr ms'"
proof (induction acc arbitrary: ms)
  case Nil
  then show ?case by simp
next
  case (Cons x acc)
  obtain d k where x: "x = (d, k)" by (cases x)
  have k: "k < length ms" "k \<noteq> i" using Cons.prems(3) x by auto
  have "neighbors (ms ! i) \<noteq> None" "neighbors (ms ! k) \<noteq> None"
    using Cons.prems(1,2) k by (auto simp: has_neighbors_def)
  then obtain ms1 where c: "connectPair ms i k d = Inr ms1"
    using connectPair_ok[of ms i _ k _ d] Cons.prems(2) k by auto
  have "has_neighbors ms1" using connectPair_has_neighbors[OF c Cons.prems(2) k(1) _ Cons.prems(1)] k by simp
  moreover have "length ms1 = length ms" using connectPair_facts(1)[OF c Cons.prems(2) k(1)] k by simp
  ultimately show ?case
    using Cons.IH[of ms1] Cons.prems(2,3) c x by simp
qed

lemma connectAll_inv:
  "connectAll ms i acc = Inr ms' \<Longrightarrow> i < length ms \<Longrightarrow>
   \<forall>x\<in>set acc. snd x < length ms \<and> snd x \<noteq> i \<and> code (ms ! snd x) \<notin> toMuniCode ` set (edges (ms ! i)) \<Longrightarrow>
   distinct (map snd acc) \<Longrightarrow> distinct (map code ms) \<Longrightarrow>
   neighbors_ok ms \<Longrightarrow> mutual_edges ms \<Longrightarrow> simple_edges ms \<Longrightarrow>
   same_entities ms ms' \<and> neighbors_ok ms' \<and> mutual_edges ms' \<and> simple_edges ms' \<and>
   edges (ms' ! i) = edges (ms ! i) @ map (edgeTo ms i) acc"
proof (induction acc arbitrary: ms)
  case Nil
  then show ?case by simp
next
  case (Cons x acc)
  obtain d k where x: "x = (d, k)" by (cases x)
  note i = Cons.prems(2)
  have k: "k < length ms" "i \<noteq> k" "code (ms ! k) \<notin> toMuniCode ` set (edges (ms ! i))"
    using Cons.prems(3) x by auto
  obtain ms1 where c: "connectPair ms i k d = Inr ms1" and r: "connectAll ms1 i acc = Inr ms'"
    using Cons.prems(1) x by (auto split: sum.splits)
  note f = connectPair_facts[OF c i k(1,2)]
  note inv = connectPair_inv[OF c i k(1,2) Cons.prems(5,6,7,8) k(3)]
  have se: "same_entities ms ms1" by (rule connectPair_same_entities[OF c i k(1,2)])
  have codes: "map code ms1 = map code ms" by (rule same_entities_codes[OF se])
  have cand: "\<forall>y\<in>set acc. snd y < length ms1 \<and> snd y \<noteq> i \<and>
      code (ms1 ! snd y) \<notin> toMuniCode ` set (edges (ms1 ! i))"
  proof
    fix y assume y: "y \<in> set acc"
    then have y1: "snd y < length ms" "snd y \<noteq> i" "code (ms ! snd y) \<notin> toMuniCode ` set (edges (ms ! i))"
      using Cons.prems(3) by auto
    have "snd y \<noteq> k" using Cons.prems(4) y x by force
    then have "code (ms ! snd y) \<noteq> code (ms ! k)"
      using distinct_codes_nth[OF Cons.prems(5) y1(1) k(1)] by blast
    then show "snd y < length ms1 \<and> snd y \<noteq> i \<and> code (ms1 ! snd y) \<notin> toMuniCode ` set (edges (ms1 ! i))"
      using y1 f(1) f(2)[OF y1(1)] f(6) by auto
  qed
  have "same_entities ms1 ms' \<and> neighbors_ok ms' \<and> mutual_edges ms' \<and> simple_edges ms' \<and>
        edges (ms' ! i) = edges (ms1 ! i) @ map (edgeTo ms1 i) acc"
    using Cons.IH[OF r _ cand _ _ inv] i f(1) Cons.prems(4,5) codes by simp
  moreover have "map (edgeTo ms1 i) acc = map (edgeTo ms i) acc"
  proof (rule map_cong[OF refl])
    fix y assume "y \<in> set acc"
    then have "snd y < length ms" using Cons.prems(3) by auto
    then show "edgeTo ms1 i y = edgeTo ms i y"
      using f(2)[of "snd y"] f(2)[OF i] by (simp add: edgeTo_def)
  qed
  ultimately show ?case
    using same_entities_trans[OF se] f(6) x by (simp add: edgeTo_def)
qed

lemma connectAll_same_entities:
  "connectAll ms i acc = Inr ms' \<Longrightarrow> i < length ms \<Longrightarrow>
   \<forall>x\<in>set acc. snd x < length ms \<and> snd x \<noteq> i \<Longrightarrow> same_entities ms ms'"
proof (induction acc arbitrary: ms)
  case Nil
  then show ?case by simp
next
  case (Cons x acc)
  obtain d k where x: "x = (d, k)" by (cases x)
  have k: "k < length ms" "i \<noteq> k" using Cons.prems(3) x by auto
  obtain ms1 where c: "connectPair ms i k d = Inr ms1" and r: "connectAll ms1 i acc = Inr ms'"
    using Cons.prems(1) x by (auto split: sum.splits)
  have se: "same_entities ms ms1" by (rule connectPair_same_entities[OF c Cons.prems(2) k])
  then have "length ms1 = length ms" by (simp add: same_entities_def)
  then have "same_entities ms1 ms'" using Cons.IH[OF r] Cons.prems(2,3) by simp
  then show ?case using same_entities_trans[OF se] by blast
qed


subsection \<open>The two inner loops\<close>

lemma orders_by_tuple_lt: "orders_by tuple_lt fst"
  by (auto simp: orders_by_def tuple_lt_def split: if_splits)

lemma comparable_tuple_lt: "inj_on fst S \<Longrightarrow> comparable tuple_lt S"
  unfolding comparable_def tuple_lt_def by (auto dest: inj_onD)

lemma acceptClosest_decompose:
  "acceptClosest i js H ms = Inr ms' \<Longrightarrow>
   \<exists>acc rest. mset H = mset acc + mset rest \<and> connectAll ms i acc = Inr ms' \<and>
     length acc \<le> length js \<and> (\<forall>t<length acc. \<not> exceedsGate (js ! t) (fst (acc ! t))) \<and>
     (heap_ordered fst H \<longrightarrow>
        sorted (map fst acc) \<and> (\<forall>x\<in>set acc. \<forall>y\<in>set rest. fst x \<le> fst y) \<and>
        (length acc = length js \<or> rest = [] \<or>
         (\<exists>y\<in>set rest. exceedsGate (js ! length acc) (fst y) \<and> (\<forall>z\<in>set rest. fst y \<le> fst z))))"
proof (induction js arbitrary: H ms)
  case Nil
  then have "ms' = ms" by simp
  then show ?case by (intro exI[of _ "[]"] exI[of _ H]) simp
next
  case (Cons j js)
  show ?case
  proof (cases "H = []")
    case True
    with Cons.prems have "ms' = ms" by simp
    with True show ?thesis by (intro exI[of _ "[]"] exI[of _ "[]"]) simp
  next
    case False
    then obtain d k H' where pop: "heappop tuple_lt H = Inr ((d, k), H')"
      using Cons.prems by (auto split: sum.splits)
    note m = heappop_mset[OF pop]
    have minH: "\<forall>y\<in>set H. d \<le> fst y" if "heap_ordered fst H"
      using heappop_heap(2)[OF orders_by_tuple_lt that pop] by simp
    have heapH': "heap_ordered fst H'" if "heap_ordered fst H"
      using heappop_heap(1)[OF orders_by_tuple_lt that pop] .
    have subH: "set H' \<subseteq> set H" using m by (metis set_mset_mset set_mset_add_mset_insert subset_insertI)
    have inH: "(d, k) \<in> set H" using m by (metis set_mset_mset union_single_eq_member)
    show ?thesis
    proof (cases "exceedsGate j d")
      case True
      with False pop Cons.prems have ms': "ms' = ms" by simp
      have "\<exists>y\<in>set H. exceedsGate ((j # js) ! length ([]::(real \<times> nat) list)) (fst y) \<and> (\<forall>z\<in>set H. fst y \<le> fst z)"
        if "heap_ordered fst H"
        using True minH[OF that] inH by (intro bexI[of _ "(d, k)"]) auto
      then show ?thesis
        using ms' by (intro exI[of _ "[]::(real \<times> nat) list"] exI[of _ H]) simp
    next
      case gate: False
      then obtain ms1 where c: "connectPair ms i k d = Inr ms1"
        and r: "acceptClosest i js H' ms1 = Inr ms'"
        using False pop Cons.prems by (auto split: sum.splits)
      from Cons.IH[OF r] obtain acc rest where
        ar: "mset H' = mset acc + mset rest" "connectAll ms1 i acc = Inr ms'"
          "length acc \<le> length js" "\<forall>t<length acc. \<not> exceedsGate (js ! t) (fst (acc ! t))"
          "heap_ordered fst H' \<longrightarrow>
             sorted (map fst acc) \<and> (\<forall>x\<in>set acc. \<forall>y\<in>set rest. fst x \<le> fst y) \<and>
             (length acc = length js \<or> rest = [] \<or>
              (\<exists>y\<in>set rest. exceedsGate (js ! length acc) (fst y) \<and> (\<forall>z\<in>set rest. fst y \<le> fst z)))"
        by blast
      have sets: "set acc \<subseteq> set H'" "set rest \<subseteq> set H'"
        using ar(1) by (metis set_mset_mset set_mset_union Un_upper1, metis set_mset_mset set_mset_union Un_upper2)
      have gates: "\<forall>t<length ((d, k) # acc). \<not> exceedsGate ((j # js) ! t) (fst (((d, k) # acc) ! t))"
        using gate ar(4) by (auto simp: nth_Cons')
      have ord: "sorted (map fst ((d, k) # acc)) \<and> (\<forall>x\<in>set ((d, k) # acc). \<forall>y\<in>set rest. fst x \<le> fst y) \<and>
             (length ((d, k) # acc) = length (j # js) \<or> rest = [] \<or>
              (\<exists>y\<in>set rest. exceedsGate ((j # js) ! length ((d, k) # acc)) (fst y) \<and> (\<forall>z\<in>set rest. fst y \<le> fst z)))"
        if h: "heap_ordered fst H"
      proof -
        note a5 = ar(5)[rule_format, OF heapH'[OF h]]
        have "\<forall>y\<in>set H'. d \<le> fst y" using minH[OF h] subH by blast
        then have "\<forall>y\<in>set acc. d \<le> fst y" "\<forall>y\<in>set rest. d \<le> fst y" using sets by blast+
        then show ?thesis using a5 by auto
      qed
      show ?thesis
        apply (rule exI[of _ "(d, k) # acc"])
        apply (rule exI[of _ rest])
        apply (intro conjI)
        subgoal using m ar(1) by simp
        subgoal using c ar(2) by simp
        subgoal using ar(3) by simp
        subgoal using gates .
        subgoal using ord by blast
        done
    qed
  qed
qed

lemma gatherCandidates_spec:
  "gatherCandidates fa ms i js H0 = Inr H \<Longrightarrow> neighbors (ms ! i) = Some nb \<Longrightarrow>
   mset (map snd H) = mset (map snd H0) + mset [j \<leftarrow> js. j \<noteq> i \<and> code (ms ! j) \<notin> nb] \<and>
   (\<forall>x\<in>set H. x \<in> set H0 \<or> getDistanceBetweenMunicipalities fa (ms ! i) (ms ! snd x) = Inr (fst x)) \<and>
   (heap_ordered fst H0 \<longrightarrow> heap_ordered fst H)"
proof (induction js arbitrary: H0)
  case Nil
  then show ?case by simp
next
  case (Cons j js)
  show ?case
  proof (cases "i = j \<or> code (ms ! j) \<in> nb")
    case True
    then have "gatherCandidates fa ms i js H0 = Inr H"
      using Cons.prems(1) by (auto simp: Cons.prems(2) split: if_splits)
    from Cons.IH[OF this Cons.prems(2)] True show ?thesis by auto
  next
    case False
    then obtain d H1 where d: "getDistanceBetweenMunicipalities fa (ms ! i) (ms ! j) = Inr d"
      and p: "heappush tuple_lt H0 (d, j) = Inr H1" and r: "gatherCandidates fa ms i js H1 = Inr H"
      using Cons.prems(1) by (auto simp: Cons.prems(2) split: sum.splits if_splits)
    note m = heappush_mset[OF p]
    have s1: "set H1 = insert (d, j) (set H0)" using m by (metis set_mset_mset set_mset_add_mset_insert)
    have m1: "mset (map snd H1) = add_mset j (mset (map snd H0))"
      using m by (metis snd_conv mset_map image_mset_add_mset)
    have h1: "heap_ordered fst H0 \<Longrightarrow> heap_ordered fst H1"
      using heappush_heap[OF orders_by_tuple_lt _ p] .
    from Cons.IH[OF r Cons.prems(2)] show ?thesis
      using False d s1 m1 h1 by auto
  qed
qed

subsection \<open>A visit, the outer loop and the serialisation\<close>

lemma candidates_Some:
  "neighbors (ms ! i) = Some nb \<Longrightarrow>
   candidates ms i = [j \<leftarrow> [0..<length ms]. j \<noteq> i \<and> code (ms ! j) \<notin> nb]"
  by (simp add: candidates_def)

lemma heap_ordered_Nil [simp]: "heap_ordered key []"
  by (simp add: heap_ordered_def)

lemma visitMunicipality_decompose:
  assumes v: "visitMunicipality fa i ms = Inr ms'"
  shows "\<exists>acc rest. connectAll ms i acc = Inr ms' \<and>
     mset (map snd acc) + mset (map snd rest) = mset (candidates ms i) \<and>
     (\<forall>x\<in>set acc \<union> set rest. getDistanceBetweenMunicipalities fa (ms ! i) (ms ! snd x) = Inr (fst x)) \<and>
     length acc \<le> MAX_EDGES \<and> (\<forall>t<length acc. \<not> exceedsGate t (fst (acc ! t))) \<and>
     sorted (map fst acc) \<and> (\<forall>x\<in>set acc. \<forall>y\<in>set rest. fst x \<le> fst y) \<and>
     (length acc = MAX_EDGES \<or> rest = [] \<or>
      (\<exists>y\<in>set rest. exceedsGate (length acc) (fst y) \<and> (\<forall>z\<in>set rest. fst y \<le> fst z)))"
proof -
  obtain H where g: "gatherCandidates fa ms i [0..<length ms] [] = Inr H"
    and a: "acceptClosest i [0..<MAX_EDGES] H ms = Inr ms'"
    using v by (auto simp: visitMunicipality_def split: sum.splits)
  show ?thesis
  proof (cases "neighbors (ms ! i)")
    case None
    have "gatherCandidates fa ms i js [] = Inr H \<Longrightarrow> H = [] \<and> [j \<leftarrow> js. j \<noteq> i] = []" for js
      by (induction js) (auto simp: None split: if_splits)
    from this[OF g] have H: "H = []" and c: "candidates ms i = []"
      by (simp_all add: candidates_def None)
    from a H have "ms' = ms" by (cases MAX_EDGES) (simp_all add: upt_rec)
    then show ?thesis using c
      by (intro exI[of _ "[]::(real \<times> nat) list"]) simp
  next
    case (Some nb)
    from gatherCandidates_spec[OF g Some]
    have gs: "mset (map snd H) = mset (candidates ms i)"
      "\<forall>x\<in>set H. getDistanceBetweenMunicipalities fa (ms ! i) (ms ! snd x) = Inr (fst x)"
      "heap_ordered fst H"
      by (simp_all add: candidates_Some[OF Some])
    from acceptClosest_decompose[OF a] gs(3) obtain acc rest where
      ar: "mset H = mset acc + mset rest" "connectAll ms i acc = Inr ms'"
        "length acc \<le> length [0..<MAX_EDGES]"
        "\<forall>t<length acc. \<not> exceedsGate ([0..<MAX_EDGES] ! t) (fst (acc ! t))"
        "sorted (map fst acc)" "\<forall>x\<in>set acc. \<forall>y\<in>set rest. fst x \<le> fst y"
        "length acc = length [0..<MAX_EDGES] \<or> rest = [] \<or>
         (\<exists>y\<in>set rest. exceedsGate ([0..<MAX_EDGES] ! length acc) (fst y) \<and> (\<forall>z\<in>set rest. fst y \<le> fst z))"
      by blast
    have len: "length acc \<le> MAX_EDGES" using ar(3) by simp
    have sets: "set acc \<union> set rest = set H"
      using ar(1) by (metis set_mset_mset set_mset_union)
    have m: "mset (map snd acc) + mset (map snd rest) = mset (candidates ms i)"
      using ar(1) gs(1) by (metis mset_map image_mset_union)
    have gates: "\<forall>t<length acc. \<not> exceedsGate t (fst (acc ! t))"
      using ar(4) len by auto
    have stop: "length acc = MAX_EDGES \<or> rest = [] \<or>
         (\<exists>y\<in>set rest. exceedsGate (length acc) (fst y) \<and> (\<forall>z\<in>set rest. fst y \<le> fst z))"
    proof (cases "length acc = MAX_EDGES")
      case True then show ?thesis by simp
    next
      case False
      then have "length acc < MAX_EDGES" using len by simp
      then have "[0..<MAX_EDGES] ! length acc = length acc" by simp
      then show ?thesis using ar(7) False by auto
    qed
    show ?thesis
      apply (rule exI[of _ acc])
      apply (rule exI[of _ rest])
      using ar(2) m gs(2) sets len gates ar(5) ar(6) stop by blast
  qed
qed

lemma candidates_props:
  assumes "k \<in> set (candidates ms i)" "neighbors_ok ms" "i < length ms"
  shows "k < length ms" "k \<noteq> i" "code (ms ! k) \<notin> toMuniCode ` set (edges (ms ! i))"
  using assms by (auto simp: candidates_def neighbors_ok_def)

lemma distinct_candidates: "distinct (candidates ms i)"
  by (simp add: candidates_def)

lemma visitMunicipality_inv:
  assumes v: "visitMunicipality fa i ms = Inr ms'" and i: "i < length ms" and inv: "graph_inv ms"
  shows "same_entities ms ms'" and "graph_inv ms'"
    and "\<exists>acc. edges (ms' ! i) = edges (ms ! i) @ map (edgeTo ms i) acc \<and> length acc \<le> MAX_EDGES \<and>
           (\<forall>t<length acc. \<not> exceedsGate t (fst (acc ! t))) \<and> sorted (map fst acc)"
proof -
  from visitMunicipality_decompose[OF v] obtain acc rest where
    ar0: "connectAll ms i acc = Inr ms' \<and>
     mset (map snd acc) + mset (map snd rest) = mset (candidates ms i) \<and>
     (\<forall>x\<in>set acc \<union> set rest. getDistanceBetweenMunicipalities fa (ms ! i) (ms ! snd x) = Inr (fst x)) \<and>
     length acc \<le> MAX_EDGES \<and> (\<forall>t<length acc. \<not> exceedsGate t (fst (acc ! t))) \<and>
     sorted (map fst acc) \<and> (\<forall>x\<in>set acc. \<forall>y\<in>set rest. fst x \<le> fst y) \<and>
     (length acc = MAX_EDGES \<or> rest = [] \<or>
      (\<exists>y\<in>set rest. exceedsGate (length acc) (fst y) \<and> (\<forall>z\<in>set rest. fst y \<le> fst z)))"
    by (elim exE) (rule that)
  then have ar: "connectAll ms i acc = Inr ms'"
      "mset (map snd acc) + mset (map snd rest) = mset (candidates ms i)"
      "length acc \<le> MAX_EDGES" "\<forall>t<length acc. \<not> exceedsGate t (fst (acc ! t))"
      "sorted (map fst acc)"
    by simp_all
  have nk: "neighbors_ok ms" and dc: "distinct (map code ms)" and me: "mutual_edges ms" and se: "simple_edges ms"
    using inv by (simp_all add: graph_inv_def)
  have sub: "set (map snd acc) \<subseteq> set (candidates ms i)"
    using ar(2) by (metis set_mset_mset set_mset_union Un_upper1)
  have d: "distinct (map snd acc)"
  proof -
    have "distinct (map snd acc @ map snd rest)"
      using ar(2) distinct_candidates[of ms i]
      by (metis mset_append mset_eq_imp_distinct_iff)
    then show ?thesis by simp
  qed
  have cand: "\<forall>x\<in>set acc. snd x < length ms \<and> snd x \<noteq> i \<and>
      code (ms ! snd x) \<notin> toMuniCode ` set (edges (ms ! i))"
  proof
    fix x assume "x \<in> set acc"
    then have "snd x \<in> set (candidates ms i)" using sub by auto
    from candidates_props[OF this nk i]
    show "snd x < length ms \<and> snd x \<noteq> i \<and> code (ms ! snd x) \<notin> toMuniCode ` set (edges (ms ! i))"
      by simp
  qed
  note c = connectAll_inv[OF ar(1) i cand d dc nk me se]
  show "same_entities ms ms'" using c by simp
  then have "map code ms' = map code ms" by (rule same_entities_codes)
  then show "graph_inv ms'" using c dc by (simp add: graph_inv_def)
  show "\<exists>acc. edges (ms' ! i) = edges (ms ! i) @ map (edgeTo ms i) acc \<and> length acc \<le> MAX_EDGES \<and>
           (\<forall>t<length acc. \<not> exceedsGate t (fst (acc ! t))) \<and> sorted (map fst acc)"
    using c ar(3,4,5) by blast
qed

lemma visitAll_inv:
  "visitAll fa is ms = Inr ms' \<Longrightarrow> \<forall>i\<in>set is. i < length ms \<Longrightarrow> graph_inv ms \<Longrightarrow>
   same_entities ms ms' \<and> graph_inv ms'"
proof (induction "is" arbitrary: ms)
  case Nil
  then show ?case by simp
next
  case (Cons i "is")
  obtain ms1 where v: "visitMunicipality fa i ms = Inr ms1" and r: "visitAll fa is ms1 = Inr ms'"
    using Cons.prems(1) by (auto split: sum.splits)
  have i: "i < length ms" using Cons.prems(2) by simp
  note s = visitMunicipality_inv(1,2)[OF v i Cons.prems(3)]
  have "length ms1 = length ms" using s(1) by (simp add: same_entities_def)
  then have "same_entities ms1 ms' \<and> graph_inv ms'"
    using Cons.IH[OF r _ s(2)] Cons.prems(2) by simp
  then show ?case using same_entities_trans[OF s(1)] by blast
qed

lemma graph_inv_initial:
  assumes "\<forall>m\<in>set ms. edges m = [] \<and> neighbors m = Some {}" "distinct (map code ms)"
  shows "graph_inv ms"
  using assms by (simp add: graph_inv_def neighbors_ok_def mutual_edges_def simple_edges_def)

lemma buildGraph_preserves:
  assumes "buildGraph fa ms = Inr ms'" "graph_inv ms"
  shows "same_entities ms ms'" and "graph_inv ms'"
  using visitAll_inv[of fa "[0..<length ms]" ms ms'] assms
  by (simp_all add: buildGraph_def)


lemma json_dump_Inr:
  "json_dump ms = Inr out \<Longrightarrow> out = map (\<lambda>m. m\<lparr>neighbors := None\<rparr>) ms \<and> (\<forall>m\<in>set ms. neighbors m \<noteq> None)"
  by (induction ms arbitrary: out)
     (auto simp: municipalityDictSerializer_def split: sum.splits option.splits py_object.splits)

lemma json_dump_ok:
  "\<forall>m\<in>set ms. neighbors m \<noteq> None \<Longrightarrow> json_dump ms = Inr (map (\<lambda>m. m\<lparr>neighbors := None\<rparr>) ms)"
  by (induction ms) (auto simp: municipalityDictSerializer_def split: option.splits)

lemma json_dump_again:
  "ms \<noteq> [] \<Longrightarrow> \<forall>m\<in>set ms. neighbors m = None \<Longrightarrow> json_dump ms = Inl KeyError"
  by (cases ms) (auto simp: municipalityDictSerializer_def)

lemma addEdgesV2_Inr:
  assumes "addEdgesToMunicipalitiesV2 fa ms = Inr out"
  obtains ms' where "buildGraph fa ms = Inr ms'" "out = map (\<lambda>m. m\<lparr>neighbors := None\<rparr>) ms'"
  using assms json_dump_Inr by (auto simp: addEdgesToMunicipalitiesV2_def split: sum.splits)


subsection \<open>The returned mapping\<close>

lemma buildGraph_edges_of_out:
  assumes "addEdgesToMunicipalitiesV2 fa ms = Inr out"
    "graph_inv ms"
  obtains ms' where "graph_inv ms'" "same_entities ms ms'" "length out = length ms'"
    "\<And>j. j < length ms' \<Longrightarrow> edges (out ! j) = edges (ms' ! j) \<and> code (out ! j) = code (ms' ! j) \<and> neighbors (out ! j) = None"
proof -
  from addEdgesV2_Inr[OF assms(1)] obtain ms' where
    b: "buildGraph fa ms = Inr ms'" and o: "out = map (\<lambda>m. m\<lparr>neighbors := None\<rparr>) ms'" by blast
  note inv = buildGraph_preserves[OF b assms(2)]
  show ?thesis
    by (rule that[of ms']) (use inv o in simp_all)
qed

lemma addEdgesV2_mutual_inv:
  assumes "addEdgesToMunicipalitiesV2 fa ms = Inr out"
    "graph_inv ms"
  shows "\<forall>A\<in>set out. \<forall>e\<in>set (edges A). fromMuniCode e = code A \<and>
           (\<exists>B\<in>set out. code B = toMuniCode e \<and>
              \<lparr>fromMuniCode = code B, toMuniCode = code A, distance = distance e\<rparr> \<in> set (edges B))"
proof (intro ballI)
  fix A e assume A: "A \<in> set out" and e: "e \<in> set (edges A)"
  from buildGraph_edges_of_out[OF assms] obtain ms' where
    inv: "graph_inv ms'" and len: "length out = length ms'"
    and o: "\<And>j. j < length ms' \<Longrightarrow> edges (out ! j) = edges (ms' ! j) \<and> code (out ! j) = code (ms' ! j) \<and> neighbors (out ! j) = None"
    by blast
  from A obtain i where i: "i < length out" "A = out ! i" by (auto simp: in_set_conv_nth)
  then have i': "i < length ms'" using len by simp
  have e': "e \<in> set (edges (ms' ! i))" using e i o[OF i'] by simp
  from inv have "mutual_edges ms'" by (simp add: graph_inv_def)
  with i' e' obtain j where j: "fromMuniCode e = code (ms' ! i)" "j < length ms'" "code (ms' ! j) = toMuniCode e"
    "\<lparr>fromMuniCode = code (ms' ! j), toMuniCode = code (ms' ! i), distance = distance e\<rparr> \<in> set (edges (ms' ! j))"
    unfolding mutual_edges_def by blast
  have "out ! j \<in> set out" using j(2) len by simp
  then show "fromMuniCode e = code A \<and>
           (\<exists>B\<in>set out. code B = toMuniCode e \<and>
              \<lparr>fromMuniCode = code B, toMuniCode = code A, distance = distance e\<rparr> \<in> set (edges B))"
    using j o[OF i'] o[OF j(2)] i(2) by (intro conjI bexI[of _ "out ! j"]) simp_all
qed

lemma addEdgesV2_simple_inv:
  assumes "addEdgesToMunicipalitiesV2 fa ms = Inr out"
    "graph_inv ms"
  shows "\<forall>A\<in>set out. code A \<notin> toMuniCode ` set (edges A) \<and> distinct (map toMuniCode (edges A)) \<and>
           toMuniCode ` set (edges A) \<subseteq> code ` set out"
proof
  fix A assume A: "A \<in> set out"
  from buildGraph_edges_of_out[OF assms] obtain ms' where
    inv: "graph_inv ms'" and len: "length out = length ms'"
    and o: "\<And>j. j < length ms' \<Longrightarrow> edges (out ! j) = edges (ms' ! j) \<and> code (out ! j) = code (ms' ! j) \<and> neighbors (out ! j) = None"
    by blast
  from A obtain i where i: "i < length out" "A = out ! i" by (auto simp: in_set_conv_nth)
  then have i': "i < length ms'" using len by simp
  from inv have me: "mutual_edges ms'" and se: "simple_edges ms'" and dc: "distinct (map code ms')"
    by (simp_all add: graph_inv_def)
  have 1: "code A \<notin> toMuniCode ` set (edges A)"
  proof
    assume "code A \<in> toMuniCode ` set (edges A)"
    then obtain e where e: "e \<in> set (edges (ms' ! i))" "toMuniCode e = code (ms' ! i)"
      using i o[OF i'] by auto
    with me i' obtain j where "j < length ms'" "j \<noteq> i" "code (ms' ! j) = toMuniCode e"
      unfolding mutual_edges_def by blast
    then show False using distinct_codes_nth[OF dc _ i'] e(2) by auto
  qed
  have 2: "distinct (map toMuniCode (edges A))"
    using se i' i(2) o[OF i'] by (simp add: simple_edges_def)
  have 3: "toMuniCode ` set (edges A) \<subseteq> code ` set out"
  proof
    fix c assume "c \<in> toMuniCode ` set (edges A)"
    then obtain e where e: "e \<in> set (edges (ms' ! i))" "c = toMuniCode e"
      using i o[OF i'] by auto
    with me i' obtain j where j: "j < length ms'" "code (ms' ! j) = toMuniCode e"
      unfolding mutual_edges_def by blast
    then have "out ! j \<in> set out" "code (out ! j) = c" using len o[OF j(1)] e(2) by simp_all
    then show "c \<in> code ` set out" by (metis imageI)
  qed
  show "code A \<notin> toMuniCode ` set (edges A) \<and> distinct (map toMuniCode (edges A)) \<and>
           toMuniCode ` set (edges A) \<subseteq> code ` set out"
    using 1 2 3 by simp
qed

lemma addEdgesV2_mutual:
  assumes "addEdgesToMunicipalitiesV2 fa ms = Inr out"
    "\<forall>m\<in>set ms. edges m = [] \<and> neighbors m = Some {}" "distinct (map code ms)"
  shows "\<forall>A\<in>set out. \<forall>e\<in>set (edges A). fromMuniCode e = code A \<and>
           (\<exists>B\<in>set out. code B = toMuniCode e \<and>
              \<lparr>fromMuniCode = code B, toMuniCode = code A, distance = distance e\<rparr> \<in> set (edges B))"
  by (rule addEdgesV2_mutual_inv[OF assms(1) graph_inv_initial[OF assms(2,3)]])

lemma addEdgesV2_simple:
  assumes "addEdgesToMunicipalitiesV2 fa ms = Inr out"
    "\<forall>m\<in>set ms. edges m = [] \<and> neighbors m = Some {}" "distinct (map code ms)"
  shows "\<forall>A\<in>set out. code A \<notin> toMuniCode ` set (edges A) \<and> distinct (map toMuniCode (edges A)) \<and>
           toMuniCode ` set (edges A) \<subseteq> code ` set out"
  by (rule addEdgesV2_simple_inv[OF assms(1) graph_inv_initial[OF assms(2,3)]])

subsection \<open>What one visit does\<close>

lemma candidates_range: "k \<in> set (candidates ms i) \<Longrightarrow> k < length ms \<and> k \<noteq> i"
  by (auto simp: candidates_def)

lemma connectAll_edges:
  "connectAll ms i acc = Inr ms' \<Longrightarrow> i < length ms \<Longrightarrow>
   \<forall>x\<in>set acc. snd x < length ms \<and> snd x \<noteq> i \<Longrightarrow>
   edges (ms' ! i) = edges (ms ! i) @ map (edgeTo ms i) acc \<and>
   (\<forall>j<length ms. set (edges (ms ! j)) \<subseteq> set (edges (ms' ! j)))"
proof (induction acc arbitrary: ms)
  case Nil
  then show ?case by simp
next
  case (Cons x acc)
  obtain d k where x: "x = (d, k)" by (cases x)
  note i = Cons.prems(2)
  have k: "k < length ms" "i \<noteq> k" using Cons.prems(3) x by auto
  obtain ms1 where c: "connectPair ms i k d = Inr ms1" and r: "connectAll ms1 i acc = Inr ms'"
    using Cons.prems(1) x by (auto split: sum.splits)
  note f = connectPair_facts[OF c i k]
  have sub1: "set (edges (ms ! j)) \<subseteq> set (edges (ms1 ! j))" if "j < length ms" for j
    using f(5)[OF that] f(6) f(7) by (cases "j = i"; cases "j = k") auto
  have "edges (ms' ! i) = edges (ms1 ! i) @ map (edgeTo ms1 i) acc \<and>
        (\<forall>j<length ms1. set (edges (ms1 ! j)) \<subseteq> set (edges (ms' ! j)))"
    using Cons.IH[OF r] i f(1) Cons.prems(3) by simp
  moreover have "map (edgeTo ms1 i) acc = map (edgeTo ms i) acc"
  proof (rule map_cong[OF refl])
    fix y assume "y \<in> set acc"
    then have "snd y < length ms" using Cons.prems(3) by auto
    then show "edgeTo ms1 i y = edgeTo ms i y"
      using f(2)[of "snd y"] f(2)[OF i] by (simp add: edgeTo_def)
  qed
  ultimately have e: "edges (ms' ! i) = edges (ms1 ! i) @ map (edgeTo ms i) acc"
    and s: "\<forall>j<length ms1. set (edges (ms1 ! j)) \<subseteq> set (edges (ms' ! j))" by simp_all
  have "edges (ms' ! i) = edges (ms ! i) @ map (edgeTo ms i) (x # acc)"
    using e f(6) x by (simp add: edgeTo_def)
  moreover have "\<forall>j<length ms. set (edges (ms ! j)) \<subseteq> set (edges (ms' ! j))"
    using s sub1 f(1) by (metis subset_trans)
  ultimately show ?case by simp
qed

lemma visitMunicipality_characterised:
  assumes i: "i < length ms" and v: "visitMunicipality fa i ms = Inr ms'"
  shows "\<exists>acc rest.
     mset (map snd acc) + mset (map snd rest) = mset (candidates ms i) \<and>
     (\<forall>x\<in>set acc \<union> set rest. getDistanceBetweenMunicipalities fa (ms ! i) (ms ! snd x) = Inr (fst x)) \<and>
     connectAll ms i acc = Inr ms' \<and>
     edges (ms' ! i) = edges (ms ! i) @ map (edgeTo ms i) acc \<and>
     (\<forall>j<length ms. set (edges (ms ! j)) \<subseteq> set (edges (ms' ! j))) \<and>
     length acc \<le> MAX_EDGES \<and> sorted (map fst acc) \<and>
     (\<forall>j<length acc. fst (acc ! j) \<le> gate j) \<and>
     (\<forall>x\<in>set acc. \<forall>y\<in>set rest. fst x \<le> fst y) \<and>
     (length acc = MAX_EDGES \<or> rest = [] \<or>
      (\<exists>y\<in>set rest. (\<forall>z\<in>set rest. fst y \<le> fst z) \<and> gate (length acc) < fst y))"
proof -
  from visitMunicipality_decompose[OF v] obtain acc rest where
    ar0: "connectAll ms i acc = Inr ms' \<and>
     mset (map snd acc) + mset (map snd rest) = mset (candidates ms i) \<and>
     (\<forall>x\<in>set acc \<union> set rest. getDistanceBetweenMunicipalities fa (ms ! i) (ms ! snd x) = Inr (fst x)) \<and>
     length acc \<le> MAX_EDGES \<and> (\<forall>t<length acc. \<not> exceedsGate t (fst (acc ! t))) \<and>
     sorted (map fst acc) \<and> (\<forall>x\<in>set acc. \<forall>y\<in>set rest. fst x \<le> fst y) \<and>
     (length acc = MAX_EDGES \<or> rest = [] \<or>
      (\<exists>y\<in>set rest. exceedsGate (length acc) (fst y) \<and> (\<forall>z\<in>set rest. fst y \<le> fst z)))"
    by (elim exE) (rule that)
  then have c: "connectAll ms i acc = Inr ms'"
    and m: "mset (map snd acc) + mset (map snd rest) = mset (candidates ms i)" by simp_all
  have "set (map snd acc) \<subseteq> set (candidates ms i)"
    using m by (metis set_mset_mset set_mset_union Un_upper1)
  then have "\<forall>x\<in>set acc. snd x < length ms \<and> snd x \<noteq> i"
    using candidates_range[of _ ms i] by auto
  from connectAll_edges[OF c i this] ar0 show ?thesis
    unfolding exceedsGate_gate
    by (intro exI[of _ acc] exI[of _ rest]) (auto simp: not_less)
qed


section \<open>Evaluating the assembler on concrete inputs\<close>

lemmas eval_simps =
  getDistance_meridian_eval milesOfDegrees_gt_True milesOfDegrees_gt_False
  milesOfDegrees_times_gt_True milesOfDegrees_times_gt_False
  addEdgesToMunicipalitiesV2_def buildGraph_def visitMunicipality_def connectPair_def appendEdge_def
  exceedsGate_table gate_table_def tuple_lt_def heappush_def heappop_def siftup_def siftdown_def
  siftdown_loop.simps siftup_loop.simps municipalityDictSerializer_def
  MAX_EDGES_def MAX_DISTANCE_def Municipality_init_def upt_rec

lemma threeTowns_run: "addEdgesToMunicipalitiesV2 exact_arith threeTowns = Inr threeTowns_out"
  by (simp add: eval_simps threeTowns_def threeTowns_out_def townA_def townB_def townC_def insert_commute)

lemma threeTowns_empty: "\<forall>m\<in>set threeTowns. edges m = [] \<and> neighbors m = Some {}"
  by (simp add: threeTowns_def townA_def townB_def townC_def Municipality_init_def)

lemma threeTowns_codes: "distinct (map code threeTowns)"
  by (simp add: threeTowns_def townA_def townB_def townC_def Municipality_init_def)

lemmas eval_v1_simps =
  addEdgesToMunicipalities_def accountForMexicoCity_def addEdge_def isValidDistance_def
  startswith_def setEdgeDistance_def edge_lt_def


lemma threeTowns_visit0_run: "visitMunicipality exact_arith 0 threeTowns = Inr threeTowns_visit0"
  by (simp add: eval_simps threeTowns_def threeTowns_visit0_def townA_def townB_def townC_def)


lemma gateTowns_run:
  "map_sum id (map distance \<circ> edges \<circ> hd) (addEdgesToMunicipalitiesV2 exact_arith gateTowns)
   = Inr [milesOfDegrees 1, milesOfDegrees (11 / 10)]"
  by (simp add: eval_simps gateTowns_def townAt_def)

lemma addEdgesV2_length:
  assumes "addEdgesToMunicipalitiesV2 fa ms = Inr out"
    "\<forall>m\<in>set ms. edges m = [] \<and> neighbors m = Some {}" "distinct (map code ms)"
  shows "length out = length ms"
proof -
  from buildGraph_edges_of_out[OF assms(1) graph_inv_initial[OF assms(2,3)]] obtain ms' where
    "same_entities ms ms'" "length out = length ms'" by blast
  then show ?thesis by (simp add: same_entities_def)
qed

lemma addEdgesV2_degree:
  assumes "addEdgesToMunicipalitiesV2 fa ms = Inr out"
    "\<forall>m\<in>set ms. edges m = [] \<and> neighbors m = Some {}" "distinct (map code ms)"
  shows "\<forall>A\<in>set out. length (edges A) \<le> length ms - 1"
proof
  fix A assume A: "A \<in> set out"
  let ?T = "toMuniCode ` set (edges A)"
  from addEdgesV2_simple[OF assms] A have
    s: "code A \<notin> ?T" "distinct (map toMuniCode (edges A))" "?T \<subseteq> code ` set out" by auto
  have "length (edges A) = card ?T"
    using distinct_card[OF s(2)] by simp
  also have "\<dots> \<le> card (code ` set out - {code A})"
  proof (rule card_mono)
    show "finite (code ` set out - {code A})" by simp
    show "?T \<subseteq> code ` set out - {code A}" using s(1,3) by blast
  qed
  also have "\<dots> = card (code ` set out) - 1"
    using A by (simp add: card_Diff_singleton)
  also have "\<dots> \<le> length out - 1"
    using card_image_le[of "set out" code] card_length[of out] by simp
  finally show "length (edges A) \<le> length ms - 1"
    using addEdgesV2_length[OF assms] by simp
qed

lemma visitMunicipality_growth:
  assumes "i < length ms" "visitMunicipality fa i ms = Inr ms'"
  shows "length (edges (ms' ! i)) \<le> length (edges (ms ! i)) + MAX_EDGES"
proof -
  from visitMunicipality_characterised[OF assms] obtain acc where
    "edges (ms' ! i) = edges (ms ! i) @ map (edgeTo ms i) acc" "length acc \<le> MAX_EDGES"
    by blast
  then show ?thesis by simp
qed

subsection \<open>The nearest other entity is always connected\<close>

lemma getDistance_cong:
  "lat a = lat a' \<Longrightarrow> lon a = lon a' \<Longrightarrow> lat b = lat b' \<Longrightarrow> lon b = lon b' \<Longrightarrow>
   getDistanceBetweenMunicipalities fa a b = getDistanceBetweenMunicipalities fa a' b'"
  by (simp add: getDistanceBetweenMunicipalities_def haversine_a_def)

lemma same_entities_distance:
  "same_entities ms ms' \<Longrightarrow> i < length ms \<Longrightarrow> k < length ms \<Longrightarrow>
   getDistanceBetweenMunicipalities fa (ms' ! i) (ms' ! k) = getDistanceBetweenMunicipalities fa (ms ! i) (ms ! k)"
  by (intro getDistance_cong) (simp_all add: same_entities_def)

lemma visitAll_append:
  "visitAll fa (xs @ ys) ms = (case visitAll fa xs ms of Inl e \<Rightarrow> Inl e | Inr m \<Rightarrow> visitAll fa ys m)"
  by (induction xs arbitrary: ms) (auto split: sum.splits)

lemma visitMunicipality_same_entities:
  assumes "i < length ms" "visitMunicipality fa i ms = Inr ms'"
  shows "same_entities ms ms'"
proof -
  from visitMunicipality_decompose[OF assms(2)] obtain acc rest where
    "connectAll ms i acc = Inr ms' \<and>
     mset (map snd acc) + mset (map snd rest) = mset (candidates ms i) \<and>
     (\<forall>x\<in>set acc \<union> set rest. getDistanceBetweenMunicipalities fa (ms ! i) (ms ! snd x) = Inr (fst x)) \<and>
     length acc \<le> MAX_EDGES \<and> (\<forall>t<length acc. \<not> exceedsGate t (fst (acc ! t))) \<and>
     sorted (map fst acc) \<and> (\<forall>x\<in>set acc. \<forall>y\<in>set rest. fst x \<le> fst y) \<and>
     (length acc = MAX_EDGES \<or> rest = [] \<or>
      (\<exists>y\<in>set rest. exceedsGate (length acc) (fst y) \<and> (\<forall>z\<in>set rest. fst y \<le> fst z)))"
    by (elim exE) (rule that)
  then have m: "mset (map snd acc) + mset (map snd rest) = mset (candidates ms i)"
    and c: "connectAll ms i acc = Inr ms'" by simp_all
  have "set (map snd acc) \<subseteq> set (candidates ms i)"
    using m by (metis set_mset_mset set_mset_union Un_upper1)
  then have "\<forall>x\<in>set acc. snd x < length ms \<and> snd x \<noteq> i"
    using candidates_range[of _ ms i] by auto
  then show ?thesis by (rule connectAll_same_entities[OF c assms(1)])
qed

lemma visitMunicipality_mono:
  assumes "i < length ms" "visitMunicipality fa i ms = Inr ms'"
  shows "\<forall>j<length ms. set (edges (ms ! j)) \<subseteq> set (edges (ms' ! j))"
  using visitMunicipality_characterised[OF assms] by blast

lemma visitAll_mono:
  "visitAll fa is ms = Inr ms' \<Longrightarrow> \<forall>i\<in>set is. i < length ms \<Longrightarrow>
   same_entities ms ms' \<and> (\<forall>j<length ms. set (edges (ms ! j)) \<subseteq> set (edges (ms' ! j)))"
proof (induction "is" arbitrary: ms)
  case Nil
  then show ?case by simp
next
  case (Cons i "is")
  obtain ms1 where v: "visitMunicipality fa i ms = Inr ms1" and r: "visitAll fa is ms1 = Inr ms'"
    using Cons.prems(1) by (auto split: sum.splits)
  have i: "i < length ms" using Cons.prems(2) by simp
  note s = visitMunicipality_same_entities[OF i v] and m = visitMunicipality_mono[OF i v]
  have len: "length ms1 = length ms" using s by (simp add: same_entities_def)
  then have ih: "same_entities ms1 ms' \<and> (\<forall>j<length ms1. set (edges (ms1 ! j)) \<subseteq> set (edges (ms' ! j)))"
    using Cons.IH[OF r] Cons.prems(2) by simp
  show ?case
    using same_entities_trans[OF s] ih m len by (metis subset_trans)
qed



subsection \<open>Runs that raise no error\<close>

lemma same_entities_defined:
  "same_entities ms ms' \<Longrightarrow> distances_defined fa ms \<Longrightarrow> distances_defined fa ms'"
proof -
  assume se: "same_entities ms ms'" and dd: "distances_defined fa ms"
  have len: "length ms' = length ms" using se by (simp add: same_entities_def)
  show ?thesis
    unfolding distances_defined_def
  proof (intro allI impI)
    fix i j assume i: "i < length ms'" and j: "j < length ms'"
    from dd i j len obtain d where "getDistanceBetweenMunicipalities fa (ms ! i) (ms ! j) = Inr d"
      unfolding distances_defined_def by auto
    then show "\<exists>d. getDistanceBetweenMunicipalities fa (ms' ! i) (ms' ! j) = Inr d"
      using same_entities_distance[OF se, of i j] i j len by simp
  qed
qed

lemma same_entities_distinct:
  "same_entities ms ms' \<Longrightarrow> distances_distinct fa ms \<Longrightarrow> distances_distinct fa ms'"
proof -
  assume se: "same_entities ms ms'" and dd: "distances_distinct fa ms"
  have len: "length ms' = length ms" using se by (simp add: same_entities_def)
  show ?thesis
    unfolding distances_distinct_def
  proof (intro allI impI)
    fix i j k assume i: "i < length ms'" and j: "j < length ms'" and k: "k < length ms'"
      and ne: "j \<noteq> i \<and> k \<noteq> i \<and> j \<noteq> k"
    have "getDistanceBetweenMunicipalities fa (ms ! i) (ms ! j) \<noteq> getDistanceBetweenMunicipalities fa (ms ! i) (ms ! k)"
      using dd[unfolded distances_distinct_def, rule_format, of i j k] i j k ne len by simp
    then show "getDistanceBetweenMunicipalities fa (ms' ! i) (ms' ! j) \<noteq> getDistanceBetweenMunicipalities fa (ms' ! i) (ms' ! k)"
      using same_entities_distance[OF se, of i j] same_entities_distance[OF se, of i k] i j k len by simp
  qed
qed

lemma gatherCandidates_ok:
  "neighbors (ms ! i) = Some nb \<Longrightarrow> i < length ms \<Longrightarrow>
   distances_defined fa ms \<Longrightarrow> distances_distinct fa ms \<Longrightarrow>
   distinct js \<Longrightarrow> \<forall>j\<in>set js. j < length ms \<Longrightarrow>
   inj_on fst (set H0) \<Longrightarrow>
   \<forall>x\<in>set H0. snd x < length ms \<and> snd x \<noteq> i \<and> snd x \<notin> set js \<and>
                getDistanceBetweenMunicipalities fa (ms ! i) (ms ! snd x) = Inr (fst x) \<Longrightarrow>
   \<exists>H. gatherCandidates fa ms i js H0 = Inr H \<and> inj_on fst (set H) \<and>
       (\<forall>x\<in>set H. snd x < length ms \<and> snd x \<noteq> i)"
proof (induction js arbitrary: H0)
  case Nil
  then show ?case by auto
next
  case (Cons j js)
  have H0': "\<forall>x\<in>set H0. snd x < length ms \<and> snd x \<noteq> i \<and> snd x \<notin> set js \<and>
                getDistanceBetweenMunicipalities fa (ms ! i) (ms ! snd x) = Inr (fst x)"
    using Cons.prems(8) by auto
  have djs: "distinct js" and rjs: "\<forall>j\<in>set js. j < length ms" using Cons.prems(5,6) by auto
  show ?case
  proof (cases "i = j \<or> code (ms ! j) \<in> nb")
    case True
    then have "gatherCandidates fa ms i (j # js) H0 = gatherCandidates fa ms i js H0"
      by (auto simp: Cons.prems(1))
    then show ?thesis
      using Cons.IH[OF Cons.prems(1,2,3,4) djs rjs Cons.prems(7) H0'] by simp
  next
    case False
    have j: "j < length ms" "j \<noteq> i" using Cons.prems(6) False by auto
    obtain d where d: "getDistanceBetweenMunicipalities fa (ms ! i) (ms ! j) = Inr d"
      using Cons.prems(3) Cons.prems(2) j(1) unfolding distances_defined_def by blast
    have fresh: "d \<notin> fst ` set H0"
    proof
      assume "d \<in> fst ` set H0"
      then obtain x where x: "x \<in> set H0" "fst x = d" by auto
      then have sx: "snd x < length ms" "snd x \<noteq> i" "snd x \<noteq> j"
        "getDistanceBetweenMunicipalities fa (ms ! i) (ms ! snd x) = Inr d"
        using Cons.prems(8) by auto
      have "getDistanceBetweenMunicipalities fa (ms ! i) (ms ! snd x) \<noteq> getDistanceBetweenMunicipalities fa (ms ! i) (ms ! j)"
        using Cons.prems(4)[unfolded distances_distinct_def, rule_format, of i "snd x" j]
          Cons.prems(2) j sx(1,2,3) by simp
      then show False using sx(4) d by simp
    qed
    have inj: "inj_on fst (insert (d, j) (set H0))"
      using Cons.prems(7) fresh by (auto simp: inj_on_def)
    then obtain H1 where p: "heappush tuple_lt H0 (d, j) = Inr H1"
      using heappush_ok[OF comparable_tuple_lt] by blast
    have s1: "set H1 = insert (d, j) (set H0)"
      using heappush_mset[OF p] by (metis set_mset_mset set_mset_add_mset_insert)
    have inj1: "inj_on fst (set H1)" using inj s1 by simp
    have H1': "\<forall>x\<in>set H1. snd x < length ms \<and> snd x \<noteq> i \<and> snd x \<notin> set js \<and>
                getDistanceBetweenMunicipalities fa (ms ! i) (ms ! snd x) = Inr (fst x)"
      using H0' s1 j d Cons.prems(5) by auto
    have "gatherCandidates fa ms i (j # js) H0 = gatherCandidates fa ms i js H1"
      using False d p by (simp add: Cons.prems(1))
    then show ?thesis
      using Cons.IH[OF Cons.prems(1,2,3,4) djs rjs inj1 H1'] by simp
  qed
qed

lemma acceptClosest_ok:
  "has_neighbors ms \<Longrightarrow> i < length ms \<Longrightarrow> inj_on fst (set H) \<Longrightarrow>
   \<forall>x\<in>set H. snd x < length ms \<and> snd x \<noteq> i \<Longrightarrow>
   \<exists>ms'. acceptClosest i js H ms = Inr ms'"
proof (induction js arbitrary: H ms)
  case Nil
  then show ?case by simp
next
  case (Cons j js)
  show ?case
  proof (cases "H = []")
    case True
    then show ?thesis by simp
  next
    case False
    obtain x H' where pop: "heappop tuple_lt H = Inr (x, H')"
      using heappop_ok[OF comparable_tuple_lt[OF Cons.prems(3)] False] by blast
    obtain d k where x: "x = (d, k)" by (cases x)
    note m = heappop_mset[OF pop]
    have subH: "set H' \<subseteq> set H" using m by (metis set_mset_mset set_mset_add_mset_insert subset_insertI)
    have inH: "(d, k) \<in> set H" using m x by (metis set_mset_mset union_single_eq_member)
    then have k: "k < length ms" "i \<noteq> k" using Cons.prems(4) by auto
    show ?thesis
    proof (cases "exceedsGate j d")
      case True
      then show ?thesis using False pop x by simp
    next
      case gate: False
      have "neighbors (ms ! i) \<noteq> None" "neighbors (ms ! k) \<noteq> None"
        using Cons.prems(1,2) k by (auto simp: has_neighbors_def)
      then obtain ms1 where c: "connectPair ms i k d = Inr ms1"
        using connectPair_ok[of ms i _ k _ d] Cons.prems(2) k by auto
      have hn: "has_neighbors ms1"
        by (rule connectPair_has_neighbors[OF c Cons.prems(2) k Cons.prems(1)])
      have len: "length ms1 = length ms" by (rule connectPair_facts(1)[OF c Cons.prems(2) k])
      have inj: "inj_on fst (set H')" using Cons.prems(3) subH by (rule inj_on_subset)
      have "\<forall>x\<in>set H'. snd x < length ms1 \<and> snd x \<noteq> i"
        using Cons.prems(4) subH len by auto
      from Cons.IH[OF hn _ inj this] Cons.prems(2) len
      obtain ms' where "acceptClosest i js H' ms1 = Inr ms'" by auto
      then show ?thesis using False pop x gate c by simp
    qed
  qed
qed

lemma visitMunicipality_ok:
  assumes "has_neighbors ms" "i < length ms" "distances_defined fa ms" "distances_distinct fa ms"
  shows "\<exists>ms'. visitMunicipality fa i ms = Inr ms'"
proof -
  have "ms ! i \<in> set ms" using assms(2) by simp
  then have "neighbors (ms ! i) \<noteq> None" using assms(1) by (simp add: has_neighbors_def)
  then obtain nb where nb: "neighbors (ms ! i) = Some nb" by auto
  have "\<exists>H. gatherCandidates fa ms i [0..<length ms] [] = Inr H \<and> inj_on fst (set H) \<and>
       (\<forall>x\<in>set H. snd x < length ms \<and> snd x \<noteq> i)"
    by (rule gatherCandidates_ok[OF nb assms(2,3,4)]) simp_all
  then obtain H where g: "gatherCandidates fa ms i [0..<length ms] [] = Inr H"
    and inj: "inj_on fst (set H)" and r: "\<forall>x\<in>set H. snd x < length ms \<and> snd x \<noteq> i"
    by blast
  from acceptClosest_ok[OF assms(1,2) inj r] show ?thesis
    by (simp add: visitMunicipality_def g)
qed

lemma connectAll_has_neighbors:
  "connectAll ms i acc = Inr ms' \<Longrightarrow> i < length ms \<Longrightarrow>
   \<forall>x\<in>set acc. snd x < length ms \<and> snd x \<noteq> i \<Longrightarrow> has_neighbors ms \<Longrightarrow> has_neighbors ms'"
proof (induction acc arbitrary: ms)
  case Nil
  then show ?case by simp
next
  case (Cons x acc)
  obtain d k where x: "x = (d, k)" by (cases x)
  have k: "k < length ms" "i \<noteq> k" using Cons.prems(3) x by auto
  obtain ms1 where c: "connectPair ms i k d = Inr ms1" and r: "connectAll ms1 i acc = Inr ms'"
    using Cons.prems(1) x by (auto split: sum.splits)
  have hn: "has_neighbors ms1"
    by (rule connectPair_has_neighbors[OF c Cons.prems(2) k Cons.prems(4)])
  have len: "length ms1 = length ms" by (rule connectPair_facts(1)[OF c Cons.prems(2) k])
  show ?case using Cons.IH[OF r _ _ hn] Cons.prems(2,3) len by simp
qed

lemma visitMunicipality_has_neighbors:
  assumes "i < length ms" "visitMunicipality fa i ms = Inr ms'" "has_neighbors ms"
  shows "has_neighbors ms'"
proof -
  from visitMunicipality_decompose[OF assms(2)] obtain acc rest where
    "connectAll ms i acc = Inr ms' \<and>
     mset (map snd acc) + mset (map snd rest) = mset (candidates ms i) \<and>
     (\<forall>x\<in>set acc \<union> set rest. getDistanceBetweenMunicipalities fa (ms ! i) (ms ! snd x) = Inr (fst x)) \<and>
     length acc \<le> MAX_EDGES \<and> (\<forall>t<length acc. \<not> exceedsGate t (fst (acc ! t))) \<and>
     sorted (map fst acc) \<and> (\<forall>x\<in>set acc. \<forall>y\<in>set rest. fst x \<le> fst y) \<and>
     (length acc = MAX_EDGES \<or> rest = [] \<or>
      (\<exists>y\<in>set rest. exceedsGate (length acc) (fst y) \<and> (\<forall>z\<in>set rest. fst y \<le> fst z)))"
    by (elim exE) (rule that)
  then have m: "mset (map snd acc) + mset (map snd rest) = mset (candidates ms i)"
    and c: "connectAll ms i acc = Inr ms'" by simp_all
  have "set (map snd acc) \<subseteq> set (candidates ms i)"
    using m by (metis set_mset_mset set_mset_union Un_upper1)
  then have "\<forall>x\<in>set acc. snd x < length ms \<and> snd x \<noteq> i"
    using candidates_range[of _ ms i] by auto
  from connectAll_has_neighbors[OF c assms(1) this assms(3)] show ?thesis .
qed

lemma visitAll_ok:
  "has_neighbors ms \<Longrightarrow> \<forall>i\<in>set is. i < length ms \<Longrightarrow> distances_defined fa ms \<Longrightarrow>
   distances_distinct fa ms \<Longrightarrow> \<exists>ms'. visitAll fa is ms = Inr ms' \<and> has_neighbors ms'"
proof (induction "is" arbitrary: ms)
  case Nil
  then show ?case by simp
next
  case (Cons i "is")
  have i: "i < length ms" using Cons.prems(2) by simp
  obtain ms1 where v: "visitMunicipality fa i ms = Inr ms1"
    using visitMunicipality_ok[OF Cons.prems(1) i Cons.prems(3,4)] by blast
  have se: "same_entities ms ms1" by (rule visitMunicipality_same_entities[OF i v])
  have hn: "has_neighbors ms1" by (rule visitMunicipality_has_neighbors[OF i v Cons.prems(1)])
  have len: "length ms1 = length ms" using se by (simp add: same_entities_def)
  from Cons.IH[OF hn _ same_entities_defined[OF se Cons.prems(3)] same_entities_distinct[OF se Cons.prems(4)]]
  show ?case using Cons.prems(2) len v by simp
qed

lemma addEdgesV2_ok:
  assumes "has_neighbors ms" "distances_defined fa ms" "distances_distinct fa ms"
  shows "\<exists>out. addEdgesToMunicipalitiesV2 fa ms = Inr out"
proof -
  obtain ms' where b: "buildGraph fa ms = Inr ms'" and hn: "has_neighbors ms'"
    using visitAll_ok[OF assms(1) _ assms(2,3), of "[0..<length ms]"]
    by (auto simp: buildGraph_def)
  have "json_dump ms' = Inr (map (\<lambda>m. m\<lparr>neighbors := None\<rparr>) ms')"
    using hn by (intro json_dump_ok) (simp add: has_neighbors_def)
  then show ?thesis using b by (simp add: addEdgesToMunicipalitiesV2_def)
qed

subsection \<open>Equal distances\<close>

lemma tieTowns_run: "addEdgesToMunicipalitiesV2 exact_arith tieTowns = Inr tieTowns_out"
  by (simp add: eval_simps tieTowns_def tieTowns_out_def townAt_def insert_commute)

lemma tieTowns_candidates: "candidates tieTowns 0 = [1, 2, 3, 4]"
  by (simp add: candidates_def tieTowns_def townAt_def Municipality_init_def upt_rec)

lemma tieTowns_tie:
  "getDistanceBetweenMunicipalities exact_arith (tieTowns ! 0) (tieTowns ! 3) = Inr (milesOfDegrees (9 / 5))"
  "getDistanceBetweenMunicipalities exact_arith (tieTowns ! 0) (tieTowns ! 4) = Inr (milesOfDegrees (9 / 5))"
  by (simp_all add: eval_simps tieTowns_def townAt_def)

lemma mirrorTowns_run: "addEdgesToMunicipalitiesV2 exact_arith mirrorTowns = Inl TypeError"
  by (simp add: eval_simps mirrorTowns_def townAt_def)

lemma tuple_lt_TypeError:
  "tuple_lt (d1, k1) (d2, k2) = Inl e \<longleftrightarrow> e = TypeError \<and> d1 = d2 \<and> k1 \<noteq> k2"
  by (auto simp: tuple_lt_def)

lemma valid_lat_distances_defined:
  "\<forall>m\<in>set ms. \<bar>lat m\<bar> \<le> 90 \<Longrightarrow> distances_defined exact_arith ms"
  unfolding distances_defined_def
proof (intro allI impI)
  fix i j assume a: "\<forall>m\<in>set ms. \<bar>lat m\<bar> \<le> 90" and i: "i < length ms" and j: "j < length ms"
  have "\<bar>lat (ms ! i)\<bar> \<le> 90" "\<bar>lat (ms ! j)\<bar> \<le> 90" using a i j by simp_all
  from getDistance_valid(1)[OF this]
  show "\<exists>d. getDistanceBetweenMunicipalities exact_arith (ms ! i) (ms ! j) = Inr d" by blast
qed

lemma threeTowns_distinct: "distances_distinct exact_arith threeTowns"
  unfolding distances_distinct_def
  by (simp add: threeTowns_def townA_def townB_def townC_def eval_simps less_Suc_eq numeral_3_eq_3 nth_Cons')

lemma threeTowns_lat: "\<forall>m\<in>set threeTowns. neighbors m \<noteq> None \<and> \<bar>lat m\<bar> \<le> 90"
  by (simp add: threeTowns_def townA_def townB_def townC_def Municipality_init_def)

subsection \<open>The superseded admission rule, and the distance bound of the canonical selector\<close>

lemma orders_by_edge_lt: "orders_by edge_lt distance"
  by (auto simp: orders_by_def edge_lt_def)

lemma comparable_edge_lt: "comparable edge_lt S"
  by (simp add: comparable_def edge_lt_def)

lemma heap_ordered_Min:
  assumes "heap_ordered key h" "h \<noteq> []"
  shows "key (h ! 0) = Min (key ` set h)"
proof -
  have "h ! 0 \<in> set h" using assms(2) by simp
  then have "key (h ! 0) \<in> key ` set h" by (rule imageI)
  moreover have "key (h ! 0) \<le> y" if "y \<in> key ` set h" for y
    using that heap_ordered_min[OF assms(1)] by (auto simp: in_set_conv_nth)
  ultimately show ?thesis by (intro Min_eqI[symmetric]) simp_all
qed

lemma addEdge_condition:
  assumes H: "heap_ordered distance (edges self)"
  shows "(isValidDistance edge \<and>
          (length (edges self) < MAX_EDGES \<or> distance edge > distance (edges self ! 0)))
         = spec_admits self edge"
proof (cases "length (edges self) < MAX_EDGES")
  case True
  then show ?thesis by (simp add: spec_admits_def isValidDistance_def)
next
  case False
  then have "edges self \<noteq> []" by (auto simp: MAX_EDGES_def)
  from heap_ordered_Min[OF H this] show ?thesis
    by (simp add: spec_admits_def isValidDistance_def False)
qed

lemma addEdge_spec:
  assumes H: "heap_ordered distance (edges self)" and L: "length (edges self) \<le> MAX_EDGES"
  shows "\<exists>self'. addEdge self edge = Inr self' \<and> self' = self\<lparr>edges := edges self'\<rparr> \<and>
     heap_ordered distance (edges self') \<and> length (edges self') \<le> MAX_EDGES \<and>
     count (mset (edges self')) edge
       = count (mset (edges self)) edge + (if spec_admits self edge then 1 else 0)"
proof (cases "spec_admits self edge")
  case False
  then have "addEdge self edge = Inr self"
    unfolding addEdge_def addEdge_condition[OF H, of edge] by simp
  then show ?thesis using H L False by simp
next
  case True
  note cond = addEdge_condition[OF H, of edge]
  obtain es where p: "heappush edge_lt (edges self) edge = Inr es"
    using heappush_ok[OF comparable_edge_lt] by blast
  note pm = heappush_mset[OF p]
  have ph: "heap_ordered distance es" by (rule heappush_heap[OF orders_by_edge_lt H p])
  have "size (mset es) = size (add_mset edge (mset (edges self)))" using pm by simp
  then have len: "length es = length (edges self) + 1" by simp
  show ?thesis
  proof (cases "length es > MAX_EDGES")
    case False
    then have "addEdge self edge = Inr (self\<lparr>edges := es\<rparr>)"
      using True cond p by (simp add: addEdge_def)
    then show ?thesis using ph False pm True by simp
  next
    case big: True
    then have full: "\<not> length (edges self) < MAX_EDGES" using len by simp
    have ne: "es \<noteq> []" using big by auto
    obtain x es' where q: "heappop edge_lt es = Inr (x, es')"
      using heappop_ok[OF comparable_edge_lt ne] by blast
    note qm = heappop_mset[OF q]
    note qh = heappop_heap[OF orders_by_edge_lt ph q]
    have "edges self \<noteq> []" using full by (auto simp: MAX_EDGES_def)
    then have "edges self ! 0 \<in> set (edges self)" by simp
    then have "edges self ! 0 \<in># mset es" using pm by simp
    then have "edges self ! 0 \<in> set es" by simp
    then have "distance x \<le> distance (edges self ! 0)" using qh(2) by blast
    moreover have "distance (edges self ! 0) < distance edge" using True full cond by simp
    ultimately have xe: "x \<noteq> edge" by auto
    have r: "addEdge self edge = Inr (self\<lparr>edges := es'\<rparr>)"
      using True cond p q big by (simp add: addEdge_def)
    have "size (mset es) = size (add_mset x (mset es'))" using qm by simp
    then have len': "length es' = length (edges self)" using len by simp
    have "count (add_mset x (mset es')) edge = count (add_mset edge (mset (edges self))) edge"
      using qm pm by simp
    then have cnt: "count (mset es') edge = count (mset (edges self)) edge + 1"
      using xe by simp
    show ?thesis using r qh(1) len' L cnt True by simp
  qed
qed

lemma connectPair_within:
  assumes c: "connectPair ms i k d = Inr ms'" and i: "i < length ms" and k: "k < length ms"
    and ik: "i \<noteq> k" and d: "d \<le> D" and w: "edges_within D ms"
  shows "edges_within D ms'"
  unfolding edges_within_def
proof (intro allI impI ballI)
  fix j e assume j: "j < length ms'" and e: "e \<in> set (edges (ms' ! j))"
  note f = connectPair_facts[OF c i k ik]
  have jl: "j < length ms" using j f(1) by simp
  have old: "\<forall>e\<in>set (edges (ms ! j)). distance e \<le> D" using w jl by (simp add: edges_within_def)
  consider "j = i" | "j = k" | "j \<noteq> i" "j \<noteq> k" by blast
  then show "distance e \<le> D"
  proof cases
    case 1
    then show ?thesis using e f(6) old d by auto
  next
    case 2
    then show ?thesis using e f(7) old d by auto
  next
    case 3
    then show ?thesis using e f(5)[OF jl 3] old by simp
  qed
qed

lemma connectAll_within:
  "connectAll ms i acc = Inr ms' \<Longrightarrow> i < length ms \<Longrightarrow>
   \<forall>x\<in>set acc. snd x < length ms \<and> snd x \<noteq> i \<and> fst x \<le> D \<Longrightarrow>
   edges_within D ms \<Longrightarrow> edges_within D ms'"
proof (induction acc arbitrary: ms)
  case Nil
  then show ?case by simp
next
  case (Cons x acc)
  obtain d k where x: "x = (d, k)" by (cases x)
  have k: "k < length ms" "i \<noteq> k" and d: "d \<le> D" using Cons.prems(3) x by auto
  obtain ms1 where c: "connectPair ms i k d = Inr ms1" and r: "connectAll ms1 i acc = Inr ms'"
    using Cons.prems(1) x by (auto split: sum.splits)
  have w1: "edges_within D ms1"
    by (rule connectPair_within[OF c Cons.prems(2) k d Cons.prems(4)])
  have len: "length ms1 = length ms" by (rule connectPair_facts(1)[OF c Cons.prems(2) k])
  show ?case using Cons.IH[OF r _ _ w1] Cons.prems(2,3) len by simp
qed

lemma visitMunicipality_within:
  assumes i: "i < length ms" and v: "visitMunicipality fa i ms = Inr ms'"
    and w: "edges_within MAX_DISTANCE ms"
  shows "edges_within MAX_DISTANCE ms'"
proof -
  from visitMunicipality_characterised[OF i v] obtain acc rest where
    c: "mset (map snd acc) + mset (map snd rest) = mset (candidates ms i) \<and>
     (\<forall>x\<in>set acc \<union> set rest. getDistanceBetweenMunicipalities fa (ms ! i) (ms ! snd x) = Inr (fst x)) \<and>
     connectAll ms i acc = Inr ms' \<and>
     edges (ms' ! i) = edges (ms ! i) @ map (edgeTo ms i) acc \<and>
     (\<forall>j<length ms. set (edges (ms ! j)) \<subseteq> set (edges (ms' ! j))) \<and>
     length acc \<le> MAX_EDGES \<and> sorted (map fst acc) \<and>
     (\<forall>j<length acc. fst (acc ! j) \<le> gate j) \<and>
     (\<forall>x\<in>set acc. \<forall>y\<in>set rest. fst x \<le> fst y) \<and>
     (length acc = MAX_EDGES \<or> rest = [] \<or>
      (\<exists>y\<in>set rest. (\<forall>z\<in>set rest. fst y \<le> fst z) \<and> gate (length acc) < fst y))"
    by (elim exE) (rule that)
  then have m: "mset (map snd acc) + mset (map snd rest) = mset (candidates ms i)"
    and ca: "connectAll ms i acc = Inr ms'"
    and g: "\<forall>j<length acc. fst (acc ! j) \<le> gate j"
    and la: "length acc \<le> MAX_EDGES" by simp_all
  have "set (map snd acc) \<subseteq> set (candidates ms i)"
    using m by (metis set_mset_mset set_mset_union Un_upper1)
  then have r: "\<forall>x\<in>set acc. snd x < length ms \<and> snd x \<noteq> i"
    using candidates_range[of _ ms i] by auto
  have "\<forall>x\<in>set acc. fst x \<le> MAX_DISTANCE"
  proof
    fix x assume "x \<in> set acc"
    then obtain j where j: "j < length acc" "acc ! j = x" by (auto simp: in_set_conv_nth)
    then have "fst x \<le> gate j" using g by auto
    moreover have "j < 10" using j(1) la by (simp add: MAX_EDGES_def)
    ultimately show "fst x \<le> MAX_DISTANCE" using gate_le[of j] by simp
  qed
  with r have "\<forall>x\<in>set acc. snd x < length ms \<and> snd x \<noteq> i \<and> fst x \<le> MAX_DISTANCE" by simp
  from connectAll_within[OF ca i this w] show ?thesis .
qed

lemma visitAll_within:
  "visitAll fa is ms = Inr ms' \<Longrightarrow> \<forall>i\<in>set is. i < length ms \<Longrightarrow>
   edges_within MAX_DISTANCE ms \<Longrightarrow> edges_within MAX_DISTANCE ms'"
proof (induction "is" arbitrary: ms)
  case Nil
  then show ?case by simp
next
  case (Cons i "is")
  have i: "i < length ms" using Cons.prems(2) by simp
  obtain ms1 where v: "visitMunicipality fa i ms = Inr ms1" and r: "visitAll fa is ms1 = Inr ms'"
    using Cons.prems(1) by (auto split: sum.splits)
  have w1: "edges_within MAX_DISTANCE ms1" by (rule visitMunicipality_within[OF i v Cons.prems(3)])
  have "same_entities ms ms1" by (rule visitMunicipality_same_entities[OF i v])
  then have len: "length ms1 = length ms" by (simp add: same_entities_def)
  show ?case using Cons.IH[OF r _ w1] Cons.prems(2) len by simp
qed

lemma addEdgesV2_within:
  assumes "addEdgesToMunicipalitiesV2 fa ms = Inr out" "\<forall>m\<in>set ms. edges m = []"
  shows "\<forall>A\<in>set out. \<forall>e\<in>set (edges A). distance e \<le> MAX_DISTANCE"
proof -
  from addEdgesV2_Inr[OF assms(1)] obtain ms' where
    b: "buildGraph fa ms = Inr ms'" and o: "out = map (\<lambda>m. m\<lparr>neighbors := None\<rparr>) ms'" by blast
  have "edges_within MAX_DISTANCE ms" using assms(2) by (simp add: edges_within_def)
  then have w: "edges_within MAX_DISTANCE ms'"
    using visitAll_within[of fa "[0..<length ms]" ms ms'] b by (simp add: buildGraph_def)
  show ?thesis
  proof (intro ballI)
    fix A e assume "A \<in> set out" and e: "e \<in> set (edges A)"
    then obtain m where m: "m \<in> set ms'" "A = m\<lparr>neighbors := None\<rparr>" using o by auto
    then obtain j where "j < length ms'" "ms' ! j = m" by (auto simp: in_set_conv_nth)
    then show "distance e \<le> MAX_DISTANCE" using w e m(2) by (auto simp: edges_within_def)
  qed
qed

lemma capitalEdge_admitted:
  "addEdge (townAt ''09001'' 0) capitalEdge = Inr ((townAt ''09001'' 0)\<lparr>edges := [capitalEdge]\<rparr>)"
proof -
  have "milesOfDegrees 2 < 200" using degreeMiles_bounds(2) by (simp add: milesOfDegrees_def)
  then show ?thesis by (simp add: eval_simps eval_v1_simps townAt_def capitalEdge_def)
qed

lemma capitalEdge_distance:
  "getDistanceBetweenMunicipalities exact_arith (capitalTowns ! 0) (capitalTowns ! 1) = Inr (distance capitalEdge)"
  "MAX_DISTANCE < distance capitalEdge"
  by (simp_all add: eval_simps capitalTowns_def capitalEdge_def townAt_def)

lemma capitalTowns_run:
  "addEdgesToMunicipalitiesV2 exact_arith capitalTowns = Inr (map (\<lambda>m. m\<lparr>neighbors := None\<rparr>) capitalTowns)"
  by (simp add: eval_simps capitalTowns_def townAt_def)

lemma sorted_heap_ordered: "sorted (map key h) \<Longrightarrow> heap_ordered key h"
  unfolding heap_ordered_def
proof (intro allI impI)
  fix p assume s: "sorted (map key h)" and p: "0 < p \<and> p < length h"
  have "(p - 1) div 2 \<le> p" by simp
  then have "map key h ! ((p - 1) div 2) \<le> map key h ! p"
    using s p by (intro sorted_nth_mono) simp_all
  moreover have "(p - 1) div 2 < length h" using p parent_less[of p] by linarith
  ultimately show "key (h ! ((p - 1) div 2)) \<le> key (h ! p)" using p by simp
qed

lemma fullTown_heap: "heap_ordered distance (edges fullTown)"
  by (rule sorted_heap_ordered) (simp add: fullTown_def)

lemma fullTown_length: "length (edges fullTown) = MAX_EDGES"
  by (simp add: fullTown_def MAX_EDGES_def)

lemma fullTown_admits: "spec_admits fullTown farEdge"
  unfolding addEdge_condition[OF fullTown_heap, symmetric]
  by (simp add: fullTown_def farEdge_def isValidDistance_def startswith_def MAX_DISTANCE_def)

lemma capitalTowns_empty: "\<forall>m\<in>set capitalTowns. edges m = []"
  by (simp add: capitalTowns_def townAt_def Municipality_init_def)

subsection \<open>Further concrete runs\<close>

lemma hubTowns_two_visits:
  "map_sum id (\<lambda>ms. map toMuniCode (edges (ms ! 0))) (visitAll exact_arith [0, 1] hubTowns)
   = Inr [''01003'', ''01004'', ''01005'', ''01006'', ''01007'', ''01008'', ''01009'',
          ''01010'', ''01011'', ''01012'', ''01002'']"
  by (simp add: eval_simps hubTowns_def townAt_def)

lemma meridian_distances_distinct:
  assumes m: "\<forall>m\<in>set ms. lon m = 0 \<and> \<bar>lat m\<bar> < 90"
    and d: "distinct (map lat ms)"
    and mid: "list_all (\<lambda>a. list_all (\<lambda>b. list_all (\<lambda>c. b = c \<or> b + c \<noteq> 2 * a)
                 (map lat ms)) (map lat ms)) (map lat ms)"
  shows "distances_distinct exact_arith ms"
  unfolding distances_distinct_def
proof (intro allI impI)
  fix i j k
  assume i: "i < length ms" and j: "j < length ms" and k: "k < length ms"
    and ne: "j \<noteq> i \<and> k \<noteq> i \<and> j \<noteq> k"
  have li: "lat (ms ! i) \<in> set (map lat ms)" and lj: "lat (ms ! j) \<in> set (map lat ms)"
    and lk: "lat (ms ! k) \<in> set (map lat ms)" using i j k by simp_all
  have jk: "lat (ms ! j) \<noteq> lat (ms ! k)"
    using d j k ne nth_eq_iff_index_eq[of "map lat ms" j k] by simp
  have "lat (ms ! j) = lat (ms ! k) \<or> lat (ms ! j) + lat (ms ! k) \<noteq> 2 * lat (ms ! i)"
    using mid li lj lk unfolding list_all_iff by blast
  then have s: "lat (ms ! j) + lat (ms ! k) \<noteq> 2 * lat (ms ! i)" using jk by simp
  have b: "lon (ms ! i) = 0 \<and> \<bar>lat (ms ! i)\<bar> < 90" "lon (ms ! j) = 0 \<and> \<bar>lat (ms ! j)\<bar> < 90"
    "lon (ms ! k) = 0 \<and> \<bar>lat (ms ! k)\<bar> < 90" using m i j k by simp_all
  have "getDistanceBetweenMunicipalities exact_arith (ms ! i) (ms ! j)
          = Inr (milesOfDegrees \<bar>lat (ms ! j) - lat (ms ! i)\<bar>)"
    using b by (intro getDistance_meridian_eval) auto
  moreover have "getDistanceBetweenMunicipalities exact_arith (ms ! i) (ms ! k)
          = Inr (milesOfDegrees \<bar>lat (ms ! k) - lat (ms ! i)\<bar>)"
    using b by (intro getDistance_meridian_eval) auto
  moreover have "\<bar>lat (ms ! j) - lat (ms ! i)\<bar> \<noteq> \<bar>lat (ms ! k) - lat (ms ! i)\<bar>"
    using jk s by (auto simp: abs_if split: if_splits)
  ultimately show "getDistanceBetweenMunicipalities exact_arith (ms ! i) (ms ! j)
          \<noteq> getDistanceBetweenMunicipalities exact_arith (ms ! i) (ms ! k)" by simp
qed

lemma hubTowns_distinct: "distances_distinct exact_arith hubTowns"
  by (rule meridian_distances_distinct) (simp_all add: hubTowns_def townAt_def Municipality_init_def)




subsection \<open>An entity with more than \<open>MAX_EDGES\<close> edges\<close>

lemma hubTowns_empty: "\<forall>m\<in>set hubTowns. edges m = [] \<and> neighbors m = Some {}"
  by (simp add: hubTowns_def townAt_def Municipality_init_def)

lemma hubTowns_codes: "distinct (map code hubTowns)"
  by (simp add: hubTowns_def townAt_def Municipality_init_def)

lemma hubTowns_defined: "distances_defined exact_arith hubTowns"
  by (rule valid_lat_distances_defined) (simp add: hubTowns_def townAt_def Municipality_init_def)

lemma hubTowns_run:
  "map_sum id (\<lambda>out. length (edges (out ! 0))) (addEdgesToMunicipalitiesV2 exact_arith hubTowns)
   = Inr 11"
proof -
  have hn: "has_neighbors hubTowns" using hubTowns_empty by (simp add: has_neighbors_def)
  have len: "length hubTowns = 12" by (simp add: hubTowns_def)
  obtain out where run: "addEdgesToMunicipalitiesV2 exact_arith hubTowns = Inr out"
    using addEdgesV2_ok[OF hn hubTowns_defined hubTowns_distinct] by blast
  from addEdgesV2_Inr[OF run] obtain ms' where
    b: "buildGraph exact_arith hubTowns = Inr ms'"
    and o: "out = map (\<lambda>m. m\<lparr>neighbors := None\<rparr>) ms'" by blast
  have split: "[0..<12] = [0, 1] @ [2..<12]" by (simp add: upt_rec)
  have b': "visitAll exact_arith [0..<12] hubTowns = Inr ms'"
    using b len by (simp only: buildGraph_def)
  have "visitAll exact_arith ([0, 1] @ [2..<12]) hubTowns = Inr ms'"
    by (rule b'[unfolded split])
  then obtain ms2 where v2: "visitAll exact_arith [0, 1] hubTowns = Inr ms2"
    and rest: "visitAll exact_arith [2..<12] ms2 = Inr ms'"
    unfolding visitAll_append by (auto split: sum.splits)
  have codes: "map toMuniCode (edges (ms2 ! 0))
      = [''01003'', ''01004'', ''01005'', ''01006'', ''01007'', ''01008'', ''01009'',
         ''01010'', ''01011'', ''01012'', ''01002'']"
    using hubTowns_two_visits v2 by simp
  have "same_entities hubTowns ms2" using visitAll_mono[OF v2] len by simp
  then have len2: "length ms2 = 12" using len by (simp add: same_entities_def)
  have m: "same_entities ms2 ms' \<and> (\<forall>j<length ms2. set (edges (ms2 ! j)) \<subseteq> set (edges (ms' ! j)))"
    using visitAll_mono[OF rest] len2 by simp
  then have sub: "set (edges (ms2 ! 0)) \<subseteq> set (edges (ms' ! 0))" using len2 by simp
  have len': "length ms' = 12" using m len2 by (simp add: same_entities_def)
  have "distinct (map toMuniCode (edges (ms2 ! 0)))" by (simp add: codes)
  then have "distinct (edges (ms2 ! 0))" by (simp add: distinct_map)
  then have "card (set (edges (ms2 ! 0))) = length (edges (ms2 ! 0))" by (rule distinct_card)
  also have "\<dots> = length (map toMuniCode (edges (ms2 ! 0)))" by simp
  also have "\<dots> = 11" by (simp only: codes) simp
  finally have c2: "card (set (edges (ms2 ! 0))) = 11" .
  have "card (set (edges (ms2 ! 0))) \<le> card (set (edges (ms' ! 0)))"
    using sub by (intro card_mono) simp_all
  also have "\<dots> \<le> length (edges (ms' ! 0))" by (rule card_length)
  finally have lower: "11 \<le> length (edges (ms' ! 0))" using c2 by simp
  have e0: "edges (out ! 0) = edges (ms' ! 0)" using o len' by simp
  have "out ! 0 \<in> set out" using o len' by simp
  then have upper: "length (edges (out ! 0)) \<le> 11"
    using addEdgesV2_degree[OF run hubTowns_empty hubTowns_codes] len by auto
  show ?thesis using run lower upper e0 by simp
qed

subsection \<open>A start that is not empty\<close>






section \<open>The claims\<close>

text \<open>
  The general statements below hold for every floating-point arithmetic \<open>fa\<close>. The
  concrete runs are evaluated in exact arithmetic; their distances are far from every
  threshold they are compared with, and the equal distances in them are equal by symmetry.
\<close>

text \<open>
  C1, counterexample. Twelve entities with empty adjacency lists on one meridian: the
  first at latitude 0, the second 1.1 degrees north of it, ten within 0.00003 degrees
  south of it. The visit of the first entity accepts its ten nearest candidates; the visit
  of the second accepts the first at rank 0 and appends the reverse edge to the list of the
  first, which nothing caps. In the result the first entity has 11 edges.
\<close>

theorem reverse_edges_uncapped_counterexample:
  "list_all (\<lambda>m. edges m = [] \<and> neighbors m = Some {}) hubTowns \<and>
   map_sum id (\<lambda>out. length (edges (out ! 0))) (addEdgesToMunicipalitiesV2 exact_arith hubTowns)
     = Inr 11 \<and>
   MAX_EDGES < 11"
  using hubTowns_empty hubTowns_run by (simp add: list_all_iff MAX_EDGES_def)

text \<open>
  C1 (as amended). One visit appends at most \<open>MAX_EDGES\<close> entries to the adjacency list
  of the visited entity. The reverse edges that the visits of other entities append are
  not capped, so a final adjacency list can hold more than \<open>MAX_EDGES\<close> entries; for
  entities with distinct codes and empty adjacency lists at the start it holds at most
  one entry per other entity, that is at most N - 1.
\<close>

theorem adjacency_list_bounds:
  "(i < length ms0 \<and> visitMunicipality fa i ms0 = Inr ms1 \<longrightarrow>
      length (edges (ms1 ! i)) \<le> length (edges (ms0 ! i)) + MAX_EDGES) \<and>
   ((\<forall>m\<in>set ms. edges m = [] \<and> neighbors m = Some {}) \<and> distinct (map code ms) \<and>
    addEdgesToMunicipalitiesV2 fa ms = Inr out \<longrightarrow>
      (\<forall>A\<in>set out. length (edges A) \<le> length ms - 1))"
  using visitMunicipality_growth[of i ms0 fa ms1] addEdgesV2_degree[of fa ms out] by blast

theorem adjacency_list_bounds_witness:
  "0 < length threeTowns \<and> visitMunicipality exact_arith 0 threeTowns = Inr threeTowns_visit0 \<and>
   length (edges (threeTowns_visit0 ! 0)) \<le> length (edges (threeTowns ! 0)) + MAX_EDGES \<and>
   list_all (\<lambda>m. edges m = [] \<and> neighbors m = Some {}) threeTowns \<and>
   distinct (map code threeTowns) \<and>
   addEdgesToMunicipalitiesV2 exact_arith threeTowns = Inr threeTowns_out \<and>
   list_all (\<lambda>A. length (edges A) \<le> length threeTowns - 1) threeTowns_out"
proof -
  have l: "0 < length threeTowns" by (simp add: threeTowns_def)
  show ?thesis
    using adjacency_list_bounds[of 0 threeTowns exact_arith threeTowns_visit0 threeTowns threeTowns_out]
      l threeTowns_visit0_run threeTowns_empty threeTowns_codes threeTowns_run
    by (simp add: list_all_iff)
qed

text \<open>
  C2, counterexample. Three entities on one meridian, at latitudes 0, 1 and -1.1 degrees.
  The first entity accepts the second at rank 0 and rejects the third at rank 1; the third
  entity, visited later, accepts the first at its own rank 0. The final adjacency list of
  the first entity holds two edges, and the farther of them (rank 1 in increasing-distance
  order) is longer than \<open>MAX_DISTANCE / 2\<close>, which is 50 as a float as well.
\<close>

theorem gate_by_final_rank_counterexample:
  "map_sum id (map distance \<circ> edges \<circ> hd) (addEdgesToMunicipalitiesV2 exact_arith gateTowns)
     = Inr [milesOfDegrees 1, milesOfDegrees (11 / 10)] \<and>
   milesOfDegrees 1 < milesOfDegrees (11 / 10) \<and>
   MAX_DISTANCE / 2 ^ 1 < milesOfDegrees (11 / 10) \<and>
   int_truediv MAX_DISTANCE (2 ^ 1) < milesOfDegrees (11 / 10)"
  using gateTowns_run
  by (simp add: MAX_DISTANCE_def milesOfDegrees_gt_True int_truediv_simps)

text \<open>
  C2 (as amended). In the visit of an entity A, the candidates (the other entities that are
  not yet neighbours of A, each with the distance that the distance function returned)
  split into the accepted ones and the rejected ones. The accepted ones are appended to
  the adjacency list of A in increasing-distance order, at most \<open>MAX_EDGES\<close> of them, and
  the one of rank j in that order has a distance of at most the threshold of rank j: the
  float that the division \<open>MAX_DISTANCE / 2**j\<close> (j < 3) or \<open>MAX_DISTANCE / 3**j\<close>
  (j >= 3) yields, so a distance equal to that float is accepted. No rejected candidate is
  nearer than an accepted one, and acceptance stops only when \<open>MAX_EDGES\<close> candidates are
  accepted, or none is left, or the nearest one left exceeds the threshold of the next
  rank. The threshold is the rounded quotient, not the exact one: at rank 3 it is
  8339999309945363 / 2251799813685248, which is above 100 / 27 and is itself accepted.
  The reverse edges that A receives in the visits of other entities were gated by their
  rank in those visits, not by their rank in the list of A.
\<close>

theorem gate_holds_within_a_visit:
  assumes "i < length ms" and "visitMunicipality fa i ms = Inr ms'"
  shows "(\<exists>acc rest.
     mset (map snd acc) + mset (map snd rest) = mset (candidates ms i) \<and>
     (\<forall>x\<in>set acc \<union> set rest. getDistanceBetweenMunicipalities fa (ms ! i) (ms ! snd x) = Inr (fst x)) \<and>
     edges (ms' ! i) = edges (ms ! i) @ map (edgeTo ms i) acc \<and>
     length acc \<le> MAX_EDGES \<and> sorted (map fst acc) \<and>
     (\<forall>j<length acc. fst (acc ! j) \<le>
        (if j < 3 then int_truediv MAX_DISTANCE (2 ^ j) else int_truediv MAX_DISTANCE (3 ^ j))) \<and>
     (\<forall>x\<in>set acc. \<forall>y\<in>set rest. fst x \<le> fst y) \<and>
     (length acc = MAX_EDGES \<or> rest = [] \<or>
      (\<exists>y\<in>set rest. (\<forall>z\<in>set rest. fst y \<le> fst z) \<and>
         (if length acc < 3 then int_truediv MAX_DISTANCE (2 ^ length acc)
          else int_truediv MAX_DISTANCE (3 ^ length acc)) < fst y))) \<and>
   map (\<lambda>j. if j < 3 then int_truediv MAX_DISTANCE (2 ^ j) else int_truediv MAX_DISTANCE (3 ^ j))
     [0..<MAX_EDGES] = gate_table \<and>
   \<not> exceedsGate 3 (8339999309945363 / 2251799813685248) \<and>
   MAX_DISTANCE / 3 ^ 3 < 8339999309945363 / 2251799813685248"
proof (intro conjI)
  from visitMunicipality_characterised[OF assms] obtain acc rest where
    c: "mset (map snd acc) + mset (map snd rest) = mset (candidates ms i) \<and>
     (\<forall>x\<in>set acc \<union> set rest. getDistanceBetweenMunicipalities fa (ms ! i) (ms ! snd x) = Inr (fst x)) \<and>
     connectAll ms i acc = Inr ms' \<and>
     edges (ms' ! i) = edges (ms ! i) @ map (edgeTo ms i) acc \<and>
     (\<forall>j<length ms. set (edges (ms ! j)) \<subseteq> set (edges (ms' ! j))) \<and>
     length acc \<le> MAX_EDGES \<and> sorted (map fst acc) \<and>
     (\<forall>j<length acc. fst (acc ! j) \<le> gate j) \<and>
     (\<forall>x\<in>set acc. \<forall>y\<in>set rest. fst x \<le> fst y) \<and>
     (length acc = MAX_EDGES \<or> rest = [] \<or>
      (\<exists>y\<in>set rest. (\<forall>z\<in>set rest. fst y \<le> fst z) \<and> gate (length acc) < fst y))"
    by (elim exE) (rule that)
  show "\<exists>acc rest.
     mset (map snd acc) + mset (map snd rest) = mset (candidates ms i) \<and>
     (\<forall>x\<in>set acc \<union> set rest. getDistanceBetweenMunicipalities fa (ms ! i) (ms ! snd x) = Inr (fst x)) \<and>
     edges (ms' ! i) = edges (ms ! i) @ map (edgeTo ms i) acc \<and>
     length acc \<le> MAX_EDGES \<and> sorted (map fst acc) \<and>
     (\<forall>j<length acc. fst (acc ! j) \<le>
        (if j < 3 then int_truediv MAX_DISTANCE (2 ^ j) else int_truediv MAX_DISTANCE (3 ^ j))) \<and>
     (\<forall>x\<in>set acc. \<forall>y\<in>set rest. fst x \<le> fst y) \<and>
     (length acc = MAX_EDGES \<or> rest = [] \<or>
      (\<exists>y\<in>set rest. (\<forall>z\<in>set rest. fst y \<le> fst z) \<and>
         (if length acc < 3 then int_truediv MAX_DISTANCE (2 ^ length acc)
          else int_truediv MAX_DISTANCE (3 ^ length acc)) < fst y))"
    apply (rule exI[of _ acc])
    apply (rule exI[of _ rest])
    using c unfolding gate_def by (intro conjI) simp_all
  have "map gate [0..<MAX_EDGES] = map (\<lambda>j. gate_table ! j) [0..<MAX_EDGES]"
    by (rule map_cong[OF refl]) (simp add: gate_table MAX_EDGES_def)
  also have "\<dots> = gate_table"
    by (simp add: MAX_EDGES_def gate_table_def upt_rec)
  finally show "map (\<lambda>j. if j < 3 then int_truediv MAX_DISTANCE (2 ^ j)
                     else int_truediv MAX_DISTANCE (3 ^ j)) [0..<MAX_EDGES] = gate_table"
    unfolding gate_def .
  show "\<not> exceedsGate 3 (8339999309945363 / 2251799813685248)"
    by (simp add: exceedsGate_table gate_table_def)
  show "MAX_DISTANCE / 3 ^ 3 < 8339999309945363 / 2251799813685248"
    by (simp add: MAX_DISTANCE_def)
qed

theorem gate_holds_within_a_visit_witness:
  "0 < length threeTowns \<and> visitMunicipality exact_arith 0 threeTowns = Inr threeTowns_visit0 \<and>
   (\<exists>acc rest.
     mset (map snd acc) + mset (map snd rest) = mset (candidates threeTowns 0) \<and>
     (\<forall>x\<in>set acc \<union> set rest.
        getDistanceBetweenMunicipalities exact_arith (threeTowns ! 0) (threeTowns ! snd x) = Inr (fst x)) \<and>
     edges (threeTowns_visit0 ! 0) = edges (threeTowns ! 0) @ map (edgeTo threeTowns 0) acc \<and>
     length acc \<le> MAX_EDGES \<and> sorted (map fst acc) \<and>
     (\<forall>j<length acc. fst (acc ! j) \<le>
        (if j < 3 then int_truediv MAX_DISTANCE (2 ^ j) else int_truediv MAX_DISTANCE (3 ^ j))) \<and>
     (\<forall>x\<in>set acc. \<forall>y\<in>set rest. fst x \<le> fst y) \<and>
     (length acc = MAX_EDGES \<or> rest = [] \<or>
      (\<exists>y\<in>set rest. (\<forall>z\<in>set rest. fst y \<le> fst z) \<and>
         (if length acc < 3 then int_truediv MAX_DISTANCE (2 ^ length acc)
          else int_truediv MAX_DISTANCE (3 ^ length acc)) < fst y)))"
proof -
  have l: "0 < length threeTowns" by (simp add: threeTowns_def)
  from conjunct1[OF gate_holds_within_a_visit[OF l threeTowns_visit0_run]] l threeTowns_visit0_run
  show ?thesis by (intro conjI)
qed










text \<open>
  C8. \<open>Municipality.addEdge\<close>, on a retained list that is a heap by distance of at most
  \<open>MAX_EDGES\<close> edges (as every list is that \<open>addEdge\<close> built from the empty one), does
  not raise, changes only the list, keeps it a heap of at most \<open>MAX_EDGES\<close> edges, and
  the new edge is in the list once more than before exactly when its distance is below
  \<open>MAX_DISTANCE\<close>, or below twice \<open>MAX_DISTANCE\<close> with an endpoint code that starts with
  \<open>09\<close>, and the list was under capacity or the edge is more distant than the smallest
  retained edge. The canonical assembler has no such allowance: started from empty
  adjacency lists, every edge it returns has a distance of at most \<open>MAX_DISTANCE\<close>,
  whatever the codes. For two entities with codes \<open>09001\<close> and \<open>09002\<close> about 138 miles
  apart, \<open>addEdge\<close> admits the edge and the canonical assembler creates none.
\<close>

theorem addEdge_admits_iff:
  "(heap_ordered distance (edges self) \<and> length (edges self) \<le> MAX_EDGES \<longrightarrow>
     (\<exists>self'. addEdge self edge = Inr self' \<and> self' = self\<lparr>edges := edges self'\<rparr> \<and>
        heap_ordered distance (edges self') \<and> length (edges self') \<le> MAX_EDGES \<and>
        count (mset (edges self')) edge
          = count (mset (edges self)) edge + (if spec_admits self edge then 1 else 0))) \<and>
   ((\<forall>m\<in>set ms. edges m = []) \<and> addEdgesToMunicipalitiesV2 fa ms = Inr out \<longrightarrow>
     (\<forall>A\<in>set out. \<forall>e\<in>set (edges A). distance e \<le> MAX_DISTANCE)) \<and>
   addEdge (townAt ''09001'' 0) capitalEdge = Inr ((townAt ''09001'' 0)\<lparr>edges := [capitalEdge]\<rparr>) \<and>
   getDistanceBetweenMunicipalities exact_arith (capitalTowns ! 0) (capitalTowns ! 1) = Inr (distance capitalEdge) \<and>
   MAX_DISTANCE < distance capitalEdge \<and>
   addEdgesToMunicipalitiesV2 exact_arith capitalTowns = Inr (map (\<lambda>m. m\<lparr>neighbors := None\<rparr>) capitalTowns)"
  using addEdge_spec[of self edge] addEdgesV2_within[of fa ms out]
    capitalEdge_admitted capitalEdge_distance capitalTowns_run
  by (intro conjI impI) simp_all

theorem addEdge_admits_iff_witness:
  "heap_ordered distance (edges fullTown) \<and> length (edges fullTown) \<le> MAX_EDGES \<and>
   spec_admits fullTown farEdge \<and>
   (\<exists>self'. addEdge fullTown farEdge = Inr self' \<and> self' = fullTown\<lparr>edges := edges self'\<rparr> \<and>
      heap_ordered distance (edges self') \<and> length (edges self') \<le> MAX_EDGES \<and>
      count (mset (edges self')) farEdge = count (mset (edges fullTown)) farEdge + 1) \<and>
   list_all (\<lambda>m. edges m = []) capitalTowns \<and>
   addEdgesToMunicipalitiesV2 exact_arith capitalTowns = Inr (map (\<lambda>m. m\<lparr>neighbors := None\<rparr>) capitalTowns) \<and>
   list_all (\<lambda>A. list_all (\<lambda>e. distance e \<le> MAX_DISTANCE) (edges A))
     (map (\<lambda>m. m\<lparr>neighbors := None\<rparr>) capitalTowns)"
  using addEdge_admits_iff[where self = fullTown and edge = farEdge and ms = capitalTowns and fa = exact_arith
      and out = "map (\<lambda>m. m\<lparr>neighbors := None\<rparr>) capitalTowns"]
    fullTown_heap fullTown_length fullTown_admits capitalTowns_empty capitalTowns_run
  by (simp add: list_all_iff)

text \<open>
  C9. The serialiser deletes the attribute \<open>_neighbors\<close> of the entity it is given and
  returns that entity's own dictionary; called again on the same entity it raises
  \<open>KeyError\<close>. The canonical assembler serialises its result before returning it, so no
  returned entity carries \<open>_neighbors\<close>, each of them makes the serialiser raise
  \<open>KeyError\<close>, and so does serialising a returned non-empty mapping again.
\<close>

theorem serializer_deletes_neighbors:
  "(neighbors m = Some nb \<longrightarrow>
      municipalityDictSerializer (MunicipalityObj m) = Inr (MunicipalityObj (m\<lparr>neighbors := None\<rparr>)) \<and>
      municipalityDictSerializer (MunicipalityObj (m\<lparr>neighbors := None\<rparr>)) = Inl KeyError) \<and>
   (addEdgesToMunicipalitiesV2 fa ms = Inr out \<longrightarrow>
      (\<forall>m'\<in>set out. neighbors m' = None \<and> municipalityDictSerializer (MunicipalityObj m') = Inl KeyError) \<and>
      (out \<noteq> [] \<longrightarrow> json_dump out = Inl KeyError))"
proof (intro conjI impI)
  assume "neighbors m = Some nb"
  then show "municipalityDictSerializer (MunicipalityObj m) = Inr (MunicipalityObj (m\<lparr>neighbors := None\<rparr>))"
    by (simp add: municipalityDictSerializer_def)
  show "municipalityDictSerializer (MunicipalityObj (m\<lparr>neighbors := None\<rparr>)) = Inl KeyError"
    by (simp add: municipalityDictSerializer_def)
next
  assume "addEdgesToMunicipalitiesV2 fa ms = Inr out"
  then obtain ms' where o: "out = map (\<lambda>m. m\<lparr>neighbors := None\<rparr>) ms'"
    by (rule addEdgesV2_Inr)
  then show n: "\<forall>m'\<in>set out. neighbors m' = None \<and> municipalityDictSerializer (MunicipalityObj m') = Inl KeyError"
    by (auto simp: municipalityDictSerializer_def)
  assume "out \<noteq> []"
  then show "json_dump out = Inl KeyError" using n by (intro json_dump_again) simp_all
qed

theorem serializer_deletes_neighbors_witness:
  "neighbors townA = Some {} \<and>
   municipalityDictSerializer (MunicipalityObj townA) = Inr (MunicipalityObj (townA\<lparr>neighbors := None\<rparr>)) \<and>
   municipalityDictSerializer (MunicipalityObj (townA\<lparr>neighbors := None\<rparr>)) = Inl KeyError \<and>
   addEdgesToMunicipalitiesV2 exact_arith threeTowns = Inr threeTowns_out \<and>
   list_all (\<lambda>m'. neighbors m' = None \<and> municipalityDictSerializer (MunicipalityObj m') = Inl KeyError)
     threeTowns_out \<and>
   threeTowns_out \<noteq> [] \<and> json_dump threeTowns_out = Inl KeyError"
  using serializer_deletes_neighbors[of townA "{}" exact_arith threeTowns threeTowns_out] threeTowns_run
  by (simp add: list_all_iff townA_def Municipality_init_def threeTowns_out_def)

text \<open>
  C10, counterexample. Five entities on one meridian, at latitudes 0, 1.6, 1.7, 1.8 and
  -1.8 degrees. In the visit of the first entity all four others are candidates, and the
  last two have exactly the same distance from it; the heap never compares these two
  entries with each other, and the assembler returns its result without raising.
\<close>

theorem equal_distances_without_error_counterexample:
  "addEdgesToMunicipalitiesV2 exact_arith tieTowns = Inr tieTowns_out \<and>
   candidates tieTowns 0 = [1, 2, 3, 4] \<and>
   getDistanceBetweenMunicipalities exact_arith (tieTowns ! 0) (tieTowns ! 3) = Inr (milesOfDegrees (9 / 5)) \<and>
   getDistanceBetweenMunicipalities exact_arith (tieTowns ! 0) (tieTowns ! 4) = Inr (milesOfDegrees (9 / 5))"
  using tieTowns_run tieTowns_candidates tieTowns_tie by simp

text \<open>
  C10 (as amended). If every entity carries the attribute \<open>_neighbors\<close>, every call of the
  distance function on two of the entities returns (it raises no \<open>ValueError\<close>), and the
  distances it returns from each entity to any two different other entities differ, then
  the assembler returns a result: pairwise distinct distances are sufficient for a run
  without error. They are not necessary. The comparison of two heap entries raises exactly
  when the distances are equal and the entities differ, and the only error it raises is
  \<open>TypeError\<close>; so a tie raises \<open>TypeError\<close> when the heap compares the two tied entries,
  as it does for three entities at latitudes 0, 1 and -1 degrees.
\<close>

theorem distinct_distances_suffice:
  "((\<forall>m\<in>set ms. neighbors m \<noteq> None) \<and> distances_defined fa ms \<and> distances_distinct fa ms \<longrightarrow>
      (\<exists>out. addEdgesToMunicipalitiesV2 fa ms = Inr out)) \<and>
   (tuple_lt (d1, k1) (d2, k2) = Inl e \<longleftrightarrow> e = TypeError \<and> d1 = d2 \<and> k1 \<noteq> k2) \<and>
   addEdgesToMunicipalitiesV2 exact_arith mirrorTowns = Inl TypeError"
proof (intro conjI impI)
  assume a: "(\<forall>m\<in>set ms. neighbors m \<noteq> None) \<and> distances_defined fa ms \<and> distances_distinct fa ms"
  then have "has_neighbors ms" by (simp add: has_neighbors_def)
  then show "\<exists>out. addEdgesToMunicipalitiesV2 fa ms = Inr out"
    using a by (intro addEdgesV2_ok) simp_all
next
  show "tuple_lt (d1, k1) (d2, k2) = Inl e \<longleftrightarrow> e = TypeError \<and> d1 = d2 \<and> k1 \<noteq> k2"
    by (rule tuple_lt_TypeError)
  show "addEdgesToMunicipalitiesV2 exact_arith mirrorTowns = Inl TypeError" by (rule mirrorTowns_run)
qed

theorem distinct_distances_suffice_witness:
  "list_all (\<lambda>m. neighbors m \<noteq> None) threeTowns \<and>
   distances_defined exact_arith threeTowns \<and> distances_distinct exact_arith threeTowns \<and>
   addEdgesToMunicipalitiesV2 exact_arith threeTowns = Inr threeTowns_out \<and>
   tuple_lt (1, 1) (1, 2) = Inl TypeError \<and>
   addEdgesToMunicipalitiesV2 exact_arith mirrorTowns = Inl TypeError"
proof -
  have n: "\<forall>m\<in>set threeTowns. neighbors m \<noteq> None" using threeTowns_lat by simp
  have d: "distances_defined exact_arith threeTowns"
    using threeTowns_lat by (intro valid_lat_distances_defined) simp
  show ?thesis
    using distinct_distances_suffice[where ms = threeTowns and fa = exact_arith
        and ?d1.0 = 1 and ?k1.0 = 1 and ?d2.0 = 1 and ?k2.0 = 2 and e = TypeError]
      n d threeTowns_distinct threeTowns_run
    by (simp add: list_all_iff)
qed

text \<open>
  C6. The distance function raises exactly when one of its two calls of \<open>math.sqrt\<close>
  gets a negative argument, that is when the float \<open>a\<close> of the haversine formula is
  negative or \<open>1 - a\<close> is; the error is \<open>ValueError\<close>. Otherwise it returns
  \<open>R * (2 * atan2(sqrt(a), sqrt(1 - a))) / 1.609\<close> with \<open>R = 6371\<close>, every operation
  rounded. In exact arithmetic, for latitudes from -90 to 90 degrees, \<open>a\<close> lies between 0
  and 1 and the result is the value of the haversine formula as the specification states
  it, which is 6371 / 1.609 times the central angle of the two points. In floating point
  the rounded \<open>a\<close> can exceed 1 for nearly antipodal points, and the call then raises
  instead of returning a distance.
\<close>

theorem getDistance_haversine_or_error:
  "(getDistanceBetweenMunicipalities fa muni1 muni2 = Inl e \<longleftrightarrow>
      e = ValueError \<and>
      (haversine_a fa muni1 muni2 < 0 \<or> fl_sub fa 1 (haversine_a fa muni1 muni2) < 0)) \<and>
   (getDistanceBetweenMunicipalities fa muni1 muni2
      = Inr (fl_div fa (fl_mul fa 6371 (fl_mul fa 2
               (fl_atan2 fa (fl_sqrt fa (haversine_a fa muni1 muni2))
                  (fl_sqrt fa (fl_sub fa 1 (haversine_a fa muni1 muni2))))))
             (fl_literal fa 1.609)) \<longleftrightarrow>
      \<not> (haversine_a fa muni1 muni2 < 0 \<or> fl_sub fa 1 (haversine_a fa muni1 muni2) < 0)) \<and>
   (\<bar>lat muni1\<bar> \<le> 90 \<and> \<bar>lat muni2\<bar> \<le> 90 \<longrightarrow>
      getDistanceBetweenMunicipalities exact_arith muni1 muni2 =
        Inr (haversine_miles (lat muni1) (lon muni1) (lat muni2) (lon muni2)) \<and>
      haversine_miles (lat muni1) (lon muni1) (lat muni2) (lon muni2) =
        6371 * central_angle (lat muni1) (lon muni1) (lat muni2) (lon muni2) / 1.609)"
proof (intro conjI impI)
  show "getDistanceBetweenMunicipalities fa muni1 muni2 = Inl e \<longleftrightarrow>
      e = ValueError \<and>
      (haversine_a fa muni1 muni2 < 0 \<or> fl_sub fa 1 (haversine_a fa muni1 muni2) < 0)"
    by (auto simp: getDistanceBetweenMunicipalities_def math_sqrt_def Let_def)
  show "getDistanceBetweenMunicipalities fa muni1 muni2
      = Inr (fl_div fa (fl_mul fa 6371 (fl_mul fa 2
               (fl_atan2 fa (fl_sqrt fa (haversine_a fa muni1 muni2))
                  (fl_sqrt fa (fl_sub fa 1 (haversine_a fa muni1 muni2))))))
             (fl_literal fa 1.609)) \<longleftrightarrow>
      \<not> (haversine_a fa muni1 muni2 < 0 \<or> fl_sub fa 1 (haversine_a fa muni1 muni2) < 0)"
    by (auto simp: getDistanceBetweenMunicipalities_def math_sqrt_def Let_def)
next
  assume a: "\<bar>lat muni1\<bar> \<le> 90 \<and> \<bar>lat muni2\<bar> \<le> 90"
  then have l: "\<bar>lat muni1\<bar> \<le> 90" "\<bar>lat muni2\<bar> \<le> 90" by simp_all
  show "getDistanceBetweenMunicipalities exact_arith muni1 muni2 =
        Inr (haversine_miles (lat muni1) (lon muni1) (lat muni2) (lon muni2))"
    by (rule getDistance_valid(1)[OF l])
  show "haversine_miles (lat muni1) (lon muni1) (lat muni2) (lon muni2) =
        6371 * central_angle (lat muni1) (lon muni1) (lat muni2) (lon muni2) / 1.609"
    using getDistance_valid[OF l] by simp
qed

theorem getDistance_haversine_or_error_witness:
  "\<bar>lat townA\<bar> \<le> 90 \<and> \<bar>lat townB\<bar> \<le> 90 \<and>
   getDistanceBetweenMunicipalities exact_arith townA townB =
     Inr (haversine_miles (lat townA) (lon townA) (lat townB) (lon townB)) \<and>
   haversine_miles (lat townA) (lon townA) (lat townB) (lon townB) =
     6371 * central_angle (lat townA) (lon townA) (lat townB) (lon townB) / 1.609"
proof -
  have a: "\<bar>lat townA\<bar> \<le> 90" and b: "\<bar>lat townB\<bar> \<le> 90"
    by (simp_all add: townA_def townB_def Municipality_init_def)
  show ?thesis
    using getDistance_haversine_or_error[where ?muni1.0 = townA and ?muni2.0 = townB] a b by simp
qed

text \<open>
  C7. For every floating-point arithmetic whose operations treat the sign symmetrically
  (\<open>sign_symmetric\<close>), the distance function gives the same result for (A, B) and for
  (B, A): the same float, or the same error. Swapping the arguments negates the two
  differences, the sine of the halved difference changes its sign only, it is squared, and
  the two cosines are multiplied in the other order; every other operation gets the same
  operands.
\<close>

theorem getDistance_symmetric:
  assumes "sign_symmetric fa"
  shows "getDistanceBetweenMunicipalities fa muni1 muni2
         = getDistanceBetweenMunicipalities fa muni2 muni1"
proof -
  have p: "(\<forall>x y. fl_sub fa x y = - fl_sub fa y x) \<and>
     (\<forall>x. fl_radians fa (- x) = - fl_radians fa x) \<and>
     (\<forall>x. fl_div fa (- x) 2 = - fl_div fa x 2) \<and>
     (\<forall>x. fl_sin fa (- x) = - fl_sin fa x) \<and>
     (\<forall>x. fl_pow fa (- x) 2 = fl_pow fa x 2) \<and>
     (\<forall>x y. fl_mul fa x y = fl_mul fa y x)"
    using assms unfolding sign_symmetric_def .
  note p1 = conjunct1[OF p] and p2 = conjunct1[OF conjunct2[OF p]]
    and p3 = conjunct1[OF conjunct2[OF conjunct2[OF p]]]
    and p4 = conjunct1[OF conjunct2[OF conjunct2[OF conjunct2[OF p]]]]
    and p5 = conjunct1[OF conjunct2[OF conjunct2[OF conjunct2[OF conjunct2[OF p]]]]]
    and p6 = conjunct2[OF conjunct2[OF conjunct2[OF conjunct2[OF conjunct2[OF p]]]]]
  have half: "fl_pow fa (fl_sin fa (fl_div fa (fl_radians fa (fl_sub fa x y)) 2)) 2
            = fl_pow fa (fl_sin fa (fl_div fa (fl_radians fa (fl_sub fa y x)) 2)) 2" for x y
  proof -
    have e1: "fl_sub fa x y = - fl_sub fa y x" by (rule p1[rule_format])
    show ?thesis
      by (simp only: e1 p2[rule_format] p3[rule_format] p4[rule_format] p5[rule_format])
  qed
  have comm: "fl_mul fa x y = fl_mul fa y x" for x y
    by (rule p6[rule_format])
  have "haversine_a fa muni1 muni2 = haversine_a fa muni2 muni1"
    unfolding haversine_a_def Let_def
    by (simp only: half[of "lat muni2" "lat muni1"] half[of "lon muni2" "lon muni1"]
          comm[of "fl_cos fa (fl_radians fa (lat muni1))" "fl_cos fa (fl_radians fa (lat muni2))"])
  then show ?thesis by (simp add: getDistanceBetweenMunicipalities_def)
qed

theorem getDistance_symmetric_witness:
  "sign_symmetric exact_arith \<and>
   getDistanceBetweenMunicipalities exact_arith townA townC
     = getDistanceBetweenMunicipalities exact_arith townC townA \<and>
   getDistanceBetweenMunicipalities exact_arith townA townC = Inr (milesOfDegrees 1)"
proof -
  have s: "sign_symmetric exact_arith"
    by (simp add: sign_symmetric_def exact_arith_def radians_def)
  have d: "getDistanceBetweenMunicipalities exact_arith townA townC = Inr (milesOfDegrees 1)"
    by (simp add: eval_simps townA_def townC_def)
  show ?thesis using getDistance_symmetric[OF s, of townA townC] s d by simp
qed

end
